theory Spec2Isabelle
  imports Main
begin

section \<open>Python values and exceptions\<close>

text \<open>
  The module \<^verbatim>\<open>metadata.py\<close> is dynamically typed. The values that reach its functions
  are strings, lists of strings and \<^verbatim>\<open>None\<close>. A character is a code point below 256 (the
  Latin-1 part of Unicode), so a \<open>string\<close> is a Python \<^verbatim>\<open>str\<close> over that range.
\<close>

datatype pyval = NoneV | Str string | Lst "string list"

text \<open>
  Dictionary keys are strings, or \<^verbatim>\<open>None\<close>: \<^verbatim>\<open>csv.DictReader\<close> files the surplus cells of an
  over-long row under the key \<^verbatim>\<open>None\<close>.
\<close>

datatype pykey = KNone | KStr string

text \<open>
  Exceptions. \<open>ValueError\<close> carries its message: \<^verbatim>\<open>segment_seconds\<close> raises the same
  exception class with two different messages. \<open>OSError\<close> is Python 3's \<^verbatim>\<open>IOError\<close>,
  \<open>CsvError\<close> is \<^verbatim>\<open>csv.Error\<close>. \<^verbatim>\<open>UnicodeDecodeError\<close> is a subclass of \<^verbatim>\<open>ValueError\<close> and is
  written as a \<open>ValueError\<close> with the message of the codec.
\<close>

datatype error =
    ValueError string
  | TypeError
  | KeyError pykey
  | AttributeError
  | OSError
  | CsvError string

text \<open>Truth value testing (\<^verbatim>\<open>if x:\<close>): \<^verbatim>\<open>None\<close>, \<^verbatim>\<open>''\<close> and \<^verbatim>\<open>[]\<close> are false.\<close>

fun truthy :: "pyval \<Rightarrow> bool" where
  "truthy NoneV = False"
| "truthy (Str s) = (s \<noteq> [])"
| "truthy (Lst xs) = (xs \<noteq> [])"

section \<open>Regular expressions (the part of \<^verbatim>\<open>re\<close> that \<^verbatim>\<open>segment_seconds\<close> uses)\<close>

text \<open>
  Character classes of a \<^verbatim>\<open>str\<close> pattern, on code points below 256: \<^verbatim>\<open>\d\<close> is the ten
  ASCII digits; \<^verbatim>\<open>\s\<close> is what \<^verbatim>\<open>str.isspace\<close> accepts, that is TAB, LF, VT, FF, CR, the
  separators 0x1C to 0x1F, space, NEL (0x85) and the no-break space (0xA0).
\<close>

datatype cclass = Digit | Space | OneOf string

definition is_digit :: "char \<Rightarrow> bool" where
  "is_digit c = (c \<in> set ''0123456789'')"

definition is_space :: "char \<Rightarrow> bool" where
  "is_space c = (c \<in> set [CHR 0x09, CHR 0x0A, CHR 0x0B, CHR 0x0C, CHR 0x0D,
     CHR 0x1C, CHR 0x1D, CHR 0x1E, CHR 0x1F, CHR '' '', CHR 0x85, CHR 0xA0])"

fun in_class :: "cclass \<Rightarrow> char \<Rightarrow> bool" where
  "in_class Digit c = is_digit c"
| "in_class Space c = is_space c"
| "in_class (OneOf cs) c = (c \<in> set cs)"

text \<open>
  The pattern language: \<open>Bol\<close> is \<^verbatim>\<open>^\<close>, \<open>Eol\<close> is \<^verbatim>\<open>$\<close>, \<open>Cls\<close> one character of a
  class, \<open>Seq\<close> concatenation, \<open>Opt r\<close> the greedy \<^verbatim>\<open>r?\<close>, \<open>Star c\<close> the greedy \<^verbatim>\<open>c*\<close> over
  a class, \<open>Group n r\<close> the capturing group number \<open>n\<close>.
\<close>

datatype regex =
    Bol
  | Eol
  | Cls cclass
  | Seq regex regex
  | Opt regex
  | Star cclass
  | Group nat regex

text \<open>
  A matcher state is the number of characters consumed so far, the rest of the subject
  and the captures made so far. \<open>rmatch r st\<close> lists every state in which a match of \<open>r\<close>
  from \<open>st\<close> can end, in the order in which a backtracking matcher tries them: the greedy
  choice first. Without the MULTILINE flag \<^verbatim>\<open>^\<close> matches at position 0 only, and \<^verbatim>\<open>$\<close>
  matches at the end of the subject and before a line feed that ends the subject.
\<close>

type_synonym captures = "nat \<Rightarrow> string option"
type_synonym mstate = "nat \<times> string \<times> captures"

fun rmatch :: "regex \<Rightarrow> mstate \<Rightarrow> mstate list" where
  "rmatch Bol (i, rest, g) = (if i = 0 then [(i, rest, g)] else [])"
| "rmatch Eol (i, rest, g) =
     (if rest = [] \<or> rest = [CHR 0x0A] then [(i, rest, g)] else [])"
| "rmatch (Cls c) (i, rest, g) =
     (case rest of
        [] \<Rightarrow> []
      | x # xs \<Rightarrow> if in_class c x then [(Suc i, xs, g)] else [])"
| "rmatch (Seq a b) st = concat (map (rmatch b) (rmatch a st))"
| "rmatch (Opt r) st = rmatch r st @ [st]"
| "rmatch (Star c) (i, rest, g) =
     map (\<lambda>k. (i + k, drop k rest, g))
       (rev [0 ..< Suc (length (takeWhile (in_class c) rest))])"
| "rmatch (Group n r) (i, rest, g) =
     map (\<lambda>(j, rest', g'). (j, rest', g'(n \<mapsto> take (j - i) rest)))
       (rmatch r (i, rest, g))"

text \<open>
  \<^verbatim>\<open>re.search\<close> tries the start positions from left to right and returns the first match
  found, or \<^verbatim>\<open>None\<close>. The match object is represented by its captures.
\<close>

definition re_search :: "regex \<Rightarrow> string \<Rightarrow> captures option" where
  "re_search r s =
     (case concat (map (\<lambda>i. rmatch r (i, drop i s, Map.empty)) [0 ..< Suc (length s)]) of
        [] \<Rightarrow> None
      | (j, rest, g) # _ \<Rightarrow> Some g)"

text \<open>\<^verbatim>\<open>m.groups()\<close> for a pattern with \<open>n\<close> groups: \<^verbatim>\<open>None\<close> for a group that took no part.\<close>

definition groups :: "nat \<Rightarrow> captures \<Rightarrow> string option list" where
  "groups n g = map g [1 ..< Suc n]"

section \<open>Timestamps and segments\<close>

text \<open>
  \<^verbatim>\<open>int(x)\<close> is only ever applied to a captured group, which is two ASCII digits; on
  such a string it is the decimal value.
\<close>

definition digit_val :: "char \<Rightarrow> int" where
  "digit_val c = int (of_char c) - 48"

definition py_int :: "string \<Rightarrow> int" where
  "py_int x = foldl (\<lambda>n c. 10 * n + digit_val c) 0 x"

text \<open>
  \<^verbatim>\<open>timestamp_seconds(seconds=None, minutes=None, hours=None)\<close>: an argument that is
  \<^verbatim>\<open>None\<close> or 0 is false and counts as 0.
\<close>

definition timestamp_seconds :: "int option \<Rightarrow> int option \<Rightarrow> int option \<Rightarrow> int" where
  "timestamp_seconds seconds minutes hours =
     (let hours' = (case hours of Some h \<Rightarrow> if h \<noteq> 0 then h * 3600 else 0 | None \<Rightarrow> 0);
          minutes' = (case minutes of Some m \<Rightarrow> if m \<noteq> 0 then m * 60 else 0 | None \<Rightarrow> 0);
          seconds' = (case seconds of Some s \<Rightarrow> if s \<noteq> 0 then s else 0 | None \<Rightarrow> 0)
      in hours' + minutes' + seconds')"

text \<open>The pattern of \<^verbatim>\<open>segment_seconds\<close>, piece by piece as the source writes it.\<close>

definition digit2 :: regex where
  \<comment> \<open>\<^verbatim>\<open>\d{2}\<close>\<close>
  "digit2 = Seq (Cls Digit) (Cls Digit)"

definition sixty :: regex where
  \<comment> \<open>\<^verbatim>\<open>[0-5]\d\<close>\<close>
  "sixty = Seq (Cls (OneOf ''012345'')) (Cls Digit)"

definition colon_opt :: regex where
  \<comment> \<open>\<^verbatim>\<open>:?\<close>\<close>
  "colon_opt = Opt (Cls (OneOf '':''))"

definition timestamp_re :: "nat \<Rightarrow> regex" where
  \<comment> \<open>\<^verbatim>\<open>(\d{2})?:?([0-5]\d):?([0-5]\d)\<close>, its groups numbered from \<open>n\<close>\<close>
  "timestamp_re n =
     Seq (Opt (Group n digit2)) (Seq colon_opt (Seq (Group (n + 1) sixty)
       (Seq colon_opt (Group (n + 2) sixty))))"

definition separator_re :: regex where
  \<comment> \<open>\<^verbatim>\<open>\s*[-|+;]\s*\<close>\<close>
  "separator_re = Seq (Star Space) (Seq (Cls (OneOf ''-|+;'')) (Star Space))"

definition pattern :: regex where
  "pattern = Seq Bol (Seq (timestamp_re 1) (Seq separator_re (Seq (timestamp_re 4) Eol)))"

definition format_message :: "string \<Rightarrow> string" where
  "format_message string = ''Audio timestamp segment format is invalid: '' @ string"

definition range_message :: string where
  "range_message = ''Start timestamp must precede end timestamp''"

text \<open>
  \<^verbatim>\<open>segment_seconds(string)\<close>. \<^verbatim>\<open>re.search\<close> raises \<^verbatim>\<open>TypeError\<close> on an argument that is not
  a string. Unpacking the list of groups into six names raises \<^verbatim>\<open>ValueError\<close> when the
  list does not have six elements.
\<close>

definition segment_seconds :: "pyval \<Rightarrow> error + (int \<times> int)" where
  "segment_seconds string =
     (case string of
        Str s \<Rightarrow>
          (case re_search pattern s of
             None \<Rightarrow> Inl (ValueError (format_message s))
           | Some m \<Rightarrow>
               (case map (\<lambda>x. case x of Some t \<Rightarrow> if t \<noteq> [] then py_int t else 0 | None \<Rightarrow> 0)
                       (groups 6 m) of
                  [start_hr, start_min, start_sec, end_hr, end_min, end_sec] \<Rightarrow>
                    (let start = timestamp_seconds (Some start_sec) (Some start_min) (Some start_hr);
                         end = timestamp_seconds (Some end_sec) (Some end_min) (Some end_hr)
                     in if end < start then Inl (ValueError range_message)
                        else Inr (start, end))
                | _ \<Rightarrow> Inl (ValueError ''not enough values to unpack'')))
      | _ \<Rightarrow> Inl TypeError)"

text \<open>
  \<^verbatim>\<open>is_valid_segment(string)\<close>: a false argument is valid; otherwise \<^verbatim>\<open>ValueError\<close> and
  \<^verbatim>\<open>TypeError\<close> from \<^verbatim>\<open>segment_seconds\<close> are caught, any other exception propagates.
\<close>

definition is_valid_segment :: "pyval \<Rightarrow> error + bool" where
  "is_valid_segment string =
     (if \<not> truthy string then Inr True
      else (case segment_seconds string of
              Inl (ValueError msg) \<Rightarrow> Inr False
            | Inl TypeError \<Rightarrow> Inr False
            | Inl e \<Rightarrow> Inl e
            | Inr r \<Rightarrow> Inr True))"

section \<open>Metadata records and the collection\<close>

text \<open>
  \<^verbatim>\<open>class Metadata(dict)\<close>: a record is a dictionary. \<^verbatim>\<open>class MetadataList(list)\<close>: the
  collection is a list whose slots hold a record or \<^verbatim>\<open>None\<close>. A slot is false when it is
  \<^verbatim>\<open>None\<close> or an empty dictionary.
\<close>

type_synonym Metadata = "pykey \<Rightarrow> pyval option"
type_synonym MetadataList = "Metadata option list"

definition KEYS :: "string list" where
  "KEYS = [''filepath'', ''event_name'', ''title'', ''speakers'', ''segments'']"

definition slot_truthy :: "Metadata option \<Rightarrow> bool" where
  "slot_truthy item = (case item of None \<Rightarrow> False | Some d \<Rightarrow> d \<noteq> Map.empty)"

text \<open>\<^verbatim>\<open>d[key]\<close> raises \<^verbatim>\<open>KeyError\<close> for a key that is not in the dictionary.\<close>

definition getitem :: "Metadata \<Rightarrow> pykey \<Rightarrow> error + pyval" where
  "getitem d key = (case d key of None \<Rightarrow> Inl (KeyError key) | Some v \<Rightarrow> Inr v)"

text \<open>Sequencing of computations that may raise.\<close>

definition and_then :: "error + 'a \<Rightarrow> ('a \<Rightarrow> error + 'b) \<Rightarrow> error + 'b" where
  "and_then m f = (case m of Inl e \<Rightarrow> Inl e | Inr x \<Rightarrow> f x)"

text \<open>
  \<^verbatim>\<open>add_item(self, data={})\<close>: \<^verbatim>\<open>self.Metadata(data)\<close> is \<^verbatim>\<open>dict(data)\<close>, a dictionary with
  the entries of \<open>data\<close> and no others. The result is the collection after the append and
  the record returned.
\<close>

definition add_item :: "MetadataList \<Rightarrow> Metadata \<Rightarrow> MetadataList \<times> Metadata" where
  "add_item self data = (let metadata = data in (self @ [Some metadata], metadata))"

text \<open>
  \<^verbatim>\<open>get_item(self, key, value)\<close>: the result is the record found, or \<^verbatim>\<open>None\<close> when the loop
  ends without a \<^verbatim>\<open>return\<close>.
\<close>

fun get_item :: "MetadataList \<Rightarrow> pykey \<Rightarrow> pyval \<Rightarrow> error + Metadata option" where
  "get_item [] key value = Inr None"
| "get_item (item # self) key value =
     (case item of
        None \<Rightarrow> get_item self key value
      | Some d \<Rightarrow>
          if d = Map.empty then get_item self key value
          else (case getitem d key of
                  Inl e \<Rightarrow> Inl e
                | Inr v \<Rightarrow> if v = value then Inr (Some d) else get_item self key value))"

section \<open>Writing the collection (\<^verbatim>\<open>write_to_csv\<close>)\<close>

text \<open>\<^verbatim>\<open>sep.join(xs)\<close> on a list of strings.\<close>

fun join :: "string \<Rightarrow> string list \<Rightarrow> string" where
  "join sep [] = []"
| "join sep [x] = x"
| "join sep (x # y # ys) = x @ sep @ join sep (y # ys)"

text \<open>
  \<^verbatim>\<open>sep.join(v)\<close> on a value: a string is iterated character by character, \<^verbatim>\<open>None\<close> is not
  iterable.
\<close>

fun str_join :: "string \<Rightarrow> pyval \<Rightarrow> error + string" where
  "str_join sep (Lst xs) = Inr (join sep xs)"
| "str_join sep (Str s) = Inr (join sep (map (\<lambda>c. [c]) s))"
| "str_join sep NoneV = Inl TypeError"

text \<open>The body of the loop of \<^verbatim>\<open>write_to_csv\<close> for one true record: the dictionary \<open>row\<close>.\<close>

definition row_of :: "Metadata \<Rightarrow> error + Metadata" where
  "row_of metadata =
     and_then (getitem metadata (KStr ''filepath'')) (\<lambda>filepath.
     and_then (getitem metadata (KStr ''event_name'')) (\<lambda>event_name.
     and_then (getitem metadata (KStr ''title'')) (\<lambda>title.
     let row = [KStr ''filepath'' \<mapsto> filepath, KStr ''event_name'' \<mapsto> event_name,
                KStr ''title'' \<mapsto> title] in
     and_then (getitem metadata (KStr ''speakers'')) (\<lambda>speakers.
     and_then (if truthy speakers
               then and_then (str_join '';'' speakers)
                      (\<lambda>cell. Inr (row(KStr ''speakers'' \<mapsto> Str cell)))
               else Inr row) (\<lambda>row.
     and_then (getitem metadata (KStr ''segments'')) (\<lambda>segments.
     if truthy segments
     then and_then (str_join '';'' segments)
            (\<lambda>cell. Inr (row(KStr ''segments'' \<mapsto> Str cell)))
     else Inr row))))))"

text \<open>The loop that builds \<open>rows\<close>: false slots are passed over.\<close>

fun build_rows :: "MetadataList \<Rightarrow> error + Metadata list" where
  "build_rows [] = Inr []"
| "build_rows (metadata # self) =
     (case metadata of
        None \<Rightarrow> build_rows self
      | Some d \<Rightarrow>
          if d = Map.empty then build_rows self
          else and_then (row_of d) (\<lambda>row.
               and_then (build_rows self) (\<lambda>rows. Inr (row # rows))))"

subsection \<open>\<^verbatim>\<open>csv.DictWriter\<close> with \<^verbatim>\<open>quoting=csv.QUOTE_ALL\<close>\<close>

text \<open>
  The writer of the \<^verbatim>\<open>csv\<close> module with the default dialect: delimiter \<^verbatim>\<open>,\<close>, quote
  character \<^verbatim>\<open>"\<close> doubled inside a field, line terminator CR LF. Under \<^verbatim>\<open>QUOTE_ALL\<close> every
  field is written between quotes. A string is written as it is and \<^verbatim>\<open>None\<close> as the empty
  string; any other value is written as \<^verbatim>\<open>str(value)\<close>, and the text of \<^verbatim>\<open>str\<close> of a list is
  outside this model (\<open>NotModelled\<close>).
\<close>

datatype 'a outcome = Raised error | NotModelled | Done 'a

definition quote_field :: "string \<Rightarrow> string" where
  "quote_field s = [CHR 0x22] @ concat (map (\<lambda>c. if c = CHR 0x22 then [c, c] else [c]) s) @ [CHR 0x22]"

definition line_terminator :: string where
  "line_terminator = [CHR 0x0D, CHR 0x0A]"

definition writerow :: "string list \<Rightarrow> string" where
  "writerow cells = join '','' (map quote_field cells) @ line_terminator"

fun field_text :: "pyval \<Rightarrow> string option" where
  "field_text (Str s) = Some s"
| "field_text NoneV = Some []"
| "field_text (Lst xs) = None"

text \<open>
  \<^verbatim>\<open>DictWriter._dict_to_list\<close>: a key outside the field names raises \<^verbatim>\<open>ValueError\<close>
  (\<^verbatim>\<open>extrasaction='raise'\<close>); a field name the row lacks is written as \<^verbatim>\<open>restval\<close>, the empty
  string.
\<close>

definition dict_to_list :: "string list \<Rightarrow> Metadata \<Rightarrow> error + pyval list" where
  "dict_to_list fieldnames rowdict =
     (if dom rowdict \<subseteq> KStr ` set fieldnames
      then Inr (map (\<lambda>key. case rowdict (KStr key) of None \<Rightarrow> Str [] | Some v \<Rightarrow> v) fieldnames)
      else Inl (ValueError ''dict contains fields not in fieldnames''))"

fun cells_text :: "pyval list \<Rightarrow> string list option" where
  "cells_text [] = Some []"
| "cells_text (v # vs) =
     (case field_text v of
        None \<Rightarrow> None
      | Some t \<Rightarrow> (case cells_text vs of None \<Rightarrow> None | Some ts \<Rightarrow> Some (t # ts)))"

text \<open>\<^verbatim>\<open>writer.writerows(rows)\<close>: the text appended to the file.\<close>

fun writerows :: "string list \<Rightarrow> Metadata list \<Rightarrow> string outcome" where
  "writerows fieldnames [] = Done []"
| "writerows fieldnames (rowdict # rows) =
     (case dict_to_list fieldnames rowdict of
        Inl e \<Rightarrow> Raised e
      | Inr vs \<Rightarrow>
          (case cells_text vs of
             None \<Rightarrow> NotModelled
           | Some cells \<Rightarrow>
               (case writerows fieldnames rows of
                  Done text \<Rightarrow> Done (writerow cells @ text)
                | other \<Rightarrow> other)))"

text \<open>\<^verbatim>\<open>writer.writeheader()\<close> writes the field names as a row.\<close>

definition writeheader :: "string list \<Rightarrow> string" where
  "writeheader fieldnames = writerow fieldnames"

subsection \<open>Files\<close>

text \<open>
  A path names a file with its text, or nothing, or something \<^verbatim>\<open>open\<close> fails on in either
  mode (a directory, a file without permission). \<^verbatim>\<open>open(path, "w", newline='')\<close> creates
  or truncates the file and writes the text as it is; \<^verbatim>\<open>open(path, "r")\<close> needs the file to
  exist. Two more entries are files that open and cannot be read as text: \<open>Undecodable\<close>,
  whose first bytes are not text in the encoding of the platform, so that fetching the first
  line raises \<^verbatim>\<open>UnicodeDecodeError\<close> with the message the entry carries; and \<open>Unreadable\<close>,
  on which the first read of the operating system fails. Writing truncates either of them
  as it does any other file.
\<close>

datatype fsentry = Absent | File string | Undecodable string | Unreadable | Unopenable

type_synonym filesystem = "string \<Rightarrow> fsentry"

text \<open>
  The exception of an \<^verbatim>\<open>open\<close> that fails. A string with a NUL character is not a path:
  \<^verbatim>\<open>open\<close> raises \<^verbatim>\<open>ValueError\<close> for it before the file system is asked, so that in a file
  system such a string is \<open>Unopenable\<close>. Every other failure is an \<^verbatim>\<open>OSError\<close>.
\<close>

definition open_error :: "string \<Rightarrow> error" where
  "open_error path =
     (if CHR 0x00 \<in> set path then ValueError ''embedded null byte'' else OSError)"

text \<open>
  \<^verbatim>\<open>write_to_csv(self, output_csv)\<close>. The rows are built before the file is opened.
  \<^verbatim>\<open>print_info\<close> (from the \<^verbatim>\<open>ui\<close> module) only prints to the console and is left out. The
  result is the file system after the call; when the call raises, the model does not
  say what is left of the file.
\<close>

definition write_to_csv :: "MetadataList \<Rightarrow> filesystem \<Rightarrow> string \<Rightarrow> filesystem outcome" where
  "write_to_csv self fs output_csv =
     (case build_rows self of
        Inl e \<Rightarrow> Raised e
      | Inr rows \<Rightarrow>
          if fs output_csv = Unopenable then Raised (open_error output_csv)
          else (case writerows KEYS rows of
                  Done text \<Rightarrow> Done (fs(output_csv := File (writeheader KEYS @ text)))
                | Raised e \<Rightarrow> Raised e
                | NotModelled \<Rightarrow> NotModelled))"

section \<open>Reading the collection (\<^verbatim>\<open>read_from_csv\<close>)\<close>

subsection \<open>The text file\<close>

text \<open>
  \<^verbatim>\<open>open(input_csv, "r")\<close> reads in universal newlines mode: CR LF and a lone CR both
  arrive as LF. Iterating over the file gives its lines, each with the LF that ends it.
\<close>

fun universal_newlines :: "string \<Rightarrow> string" where
  "universal_newlines [] = []"
| "universal_newlines [c] = (if c = CHR 0x0D then [CHR 0x0A] else [c])"
| "universal_newlines (c # d # cs) =
     (if c = CHR 0x0D \<and> d = CHR 0x0A then CHR 0x0A # universal_newlines cs
      else if c = CHR 0x0D then CHR 0x0A # universal_newlines (d # cs)
      else c # universal_newlines (d # cs))"

fun readlines :: "string \<Rightarrow> string list" where
  "readlines [] = []"
| "readlines (c # cs) =
     (if c = CHR 0x0A then [c] # readlines cs
      else (case readlines cs of [] \<Rightarrow> [[c]] | l # ls \<Rightarrow> (c # l) # ls))"

subsection \<open>\<^verbatim>\<open>csv.reader\<close>\<close>

text \<open>
  The reader of the \<^verbatim>\<open>csv\<close> module (CPython 3.11 and later, where a NUL character is an
  ordinary character) with the default dialect: delimiter \<^verbatim>\<open>,\<close>, quote character \<^verbatim>\<open>"\<close>,
  \<^verbatim>\<open>doublequote\<close> on, no escape character, \<^verbatim>\<open>skipinitialspace\<close> and \<^verbatim>\<open>strict\<close> off. The
  argument \<^verbatim>\<open>quoting=csv.QUOTE_ALL\<close> only tells the reader that quotes are significant. The
  states of the escape character are left out, since none is set. \<open>None\<close> as input is
  the end-of-line mark the reader feeds itself after each line.
\<close>

datatype parser_state =
  START_RECORD | START_FIELD | IN_FIELD | IN_QUOTED_FIELD | QUOTE_IN_QUOTED_FIELD | EAT_CRNL

record reader =
  state :: parser_state
  row_fields :: "string list"
  field :: string

definition field_limit :: nat where
  \<comment> \<open>the default of \<^verbatim>\<open>csv.field_size_limit()\<close>\<close>
  "field_limit = 131072"

definition parse_add_char :: "reader \<Rightarrow> char \<Rightarrow> error + reader" where
  "parse_add_char self c =
     (if length (field self) \<ge> field_limit
      then Inl (CsvError ''field larger than field limit (131072)'')
      else Inr (self\<lparr>field := field self @ [c]\<rparr>))"

definition parse_save_field :: "reader \<Rightarrow> reader" where
  "parse_save_field self = self\<lparr>row_fields := row_fields self @ [field self], field := []\<rparr>"

definition parse_reset :: reader where
  "parse_reset = \<lparr>state = START_RECORD, row_fields = [], field = []\<rparr>"

definition is_crlf :: "char \<Rightarrow> bool" where
  "is_crlf c = (c = CHR 0x0A \<or> c = CHR 0x0D)"

text \<open>The case \<open>START_FIELD\<close>, which the case \<open>START_RECORD\<close> falls through to.\<close>

definition start_field :: "reader \<Rightarrow> char option \<Rightarrow> error + reader" where
  "start_field self c =
     (case c of
        None \<Rightarrow> Inr ((parse_save_field self)\<lparr>state := START_RECORD\<rparr>)
      | Some x \<Rightarrow>
          if is_crlf x then Inr ((parse_save_field self)\<lparr>state := EAT_CRNL\<rparr>)
          else if x = CHR 0x22 then Inr (self\<lparr>state := IN_QUOTED_FIELD\<rparr>)
          else if x = CHR '','' then Inr (parse_save_field self)
          else and_then (parse_add_char self x) (\<lambda>self. Inr (self\<lparr>state := IN_FIELD\<rparr>)))"

definition parse_process_char :: "reader \<Rightarrow> char option \<Rightarrow> error + reader" where
  "parse_process_char self c =
     (case state self of
        START_RECORD \<Rightarrow>
          (case c of
             None \<Rightarrow> Inr self
           | Some x \<Rightarrow>
               if is_crlf x then Inr (self\<lparr>state := EAT_CRNL\<rparr>)
               else start_field (self\<lparr>state := START_FIELD\<rparr>) c)
      | START_FIELD \<Rightarrow> start_field self c
      | IN_FIELD \<Rightarrow>
          (case c of
             None \<Rightarrow> Inr ((parse_save_field self)\<lparr>state := START_RECORD\<rparr>)
           | Some x \<Rightarrow>
               if is_crlf x then Inr ((parse_save_field self)\<lparr>state := EAT_CRNL\<rparr>)
               else if x = CHR '','' then Inr ((parse_save_field self)\<lparr>state := START_FIELD\<rparr>)
               else parse_add_char self x)
      | IN_QUOTED_FIELD \<Rightarrow>
          (case c of
             None \<Rightarrow> Inr self
           | Some x \<Rightarrow>
               if x = CHR 0x22 then Inr (self\<lparr>state := QUOTE_IN_QUOTED_FIELD\<rparr>)
               else parse_add_char self x)
      | QUOTE_IN_QUOTED_FIELD \<Rightarrow>
          (case c of
             None \<Rightarrow> Inr ((parse_save_field self)\<lparr>state := START_RECORD\<rparr>)
           | Some x \<Rightarrow>
               if x = CHR 0x22
               then and_then (parse_add_char self x) (\<lambda>self. Inr (self\<lparr>state := IN_QUOTED_FIELD\<rparr>))
               else if x = CHR '','' then Inr ((parse_save_field self)\<lparr>state := START_FIELD\<rparr>)
               else if is_crlf x then Inr ((parse_save_field self)\<lparr>state := EAT_CRNL\<rparr>)
               else and_then (parse_add_char self x) (\<lambda>self. Inr (self\<lparr>state := IN_FIELD\<rparr>)))
      | EAT_CRNL \<Rightarrow>
          (case c of
             None \<Rightarrow> Inr (self\<lparr>state := START_RECORD\<rparr>)
           | Some x \<Rightarrow>
               if is_crlf x then Inr self
               else Inl (CsvError (''new-line character seen in unquoted field - '' @
                                   ''do you need to open the file with newline='' @
                                   [CHR 0x27, CHR 0x27] @ ''?''))))"

fun process_chars :: "reader \<Rightarrow> string \<Rightarrow> error + reader" where
  "process_chars self [] = Inr self"
| "process_chars self (c # cs) =
     and_then (parse_process_char self (Some c)) (\<lambda>self. process_chars self cs)"

definition process_line :: "reader \<Rightarrow> string \<Rightarrow> error + reader" where
  "process_line self line =
     and_then (process_chars self line) (\<lambda>self. parse_process_char self None)"

text \<open>
  The iteration of the reader: a record is complete when the parser is back in
  \<open>START_RECORD\<close> at the end of a line; otherwise the next line continues it. At the end
  of the input a record left open inside a quoted field is returned as it stands. The
  result is the rows produced, and the exception that ended the iteration if one did.
\<close>

fun reader_rows :: "reader \<Rightarrow> string list \<Rightarrow> string list list \<times> error option" where
  "reader_rows self [] =
     (if field self \<noteq> [] \<or> state self = IN_QUOTED_FIELD
      then ([row_fields (parse_save_field self)], None)
      else ([], None))"
| "reader_rows self (line # lines) =
     (case process_line self line of
        Inl e \<Rightarrow> ([], Some e)
      | Inr self' \<Rightarrow>
          if state self' = START_RECORD
          then (case reader_rows parse_reset lines of (rows, e) \<Rightarrow> (row_fields self' # rows, e))
          else reader_rows self' lines)"

definition csv_reader :: "string list \<Rightarrow> string list list \<times> error option" where
  "csv_reader lines = reader_rows parse_reset lines"

subsection \<open>\<^verbatim>\<open>csv.DictReader\<close>\<close>

text \<open>
  The first row gives the field names. A row that is the empty list (a blank line) is
  passed over. \<^verbatim>\<open>dict(zip(fieldnames, row))\<close> lets a later duplicate of a field name win;
  the surplus cells of a long row go under the key \<^verbatim>\<open>None\<close> (\<^verbatim>\<open>restkey\<close>), the missing cells
  of a short row are \<^verbatim>\<open>None\<close> (\<^verbatim>\<open>restval\<close>).
\<close>

definition row_dict :: "string list \<Rightarrow> string list \<Rightarrow> Metadata" where
  "row_dict fieldnames row =
     (let d = foldl (\<lambda>d (k, v). d(KStr k \<mapsto> Str v)) Map.empty (zip fieldnames row);
          lf = length fieldnames;
          lr = length row
      in if lf < lr then d(KNone \<mapsto> Lst (drop lf row))
         else if lf > lr then foldl (\<lambda>d key. d(KStr key \<mapsto> NoneV)) d (drop lr fieldnames)
         else d)"

definition DictReader :: "string list list \<Rightarrow> Metadata list" where
  "DictReader rows =
     (case rows of
        [] \<Rightarrow> []
      | fieldnames # rest \<Rightarrow> map (row_dict fieldnames) (filter (\<lambda>row. row \<noteq> []) rest))"

subsection \<open>\<^verbatim>\<open>read_from_csv\<close>\<close>

text \<open>\<^verbatim>\<open>s.split(sep)\<close> for a one-character separator: never the empty list.\<close>

fun split :: "char \<Rightarrow> string \<Rightarrow> string list" where
  "split sep [] = [[]]"
| "split sep (c # cs) =
     (if c = sep then [] # split sep cs
      else (let ws = split sep cs in (c # hd ws) # tl ws))"

text \<open>\<^verbatim>\<open>v.split(';')\<close> on a value: only a string has the method.\<close>

fun str_split :: "char \<Rightarrow> pyval \<Rightarrow> error + string list" where
  "str_split sep (Str s) = Inr (split sep s)"
| "str_split sep NoneV = Inl AttributeError"
| "str_split sep (Lst xs) = Inl AttributeError"

text \<open>The two assignments in the loop of \<^verbatim>\<open>read_from_csv\<close>.\<close>

definition read_row :: "Metadata \<Rightarrow> error + Metadata" where
  "read_row row =
     and_then (getitem row (KStr ''speakers'')) (\<lambda>cell.
     and_then (str_split CHR '';'' cell) (\<lambda>speakers.
     let row = row(KStr ''speakers'' \<mapsto> Lst speakers) in
     and_then (getitem row (KStr ''segments'')) (\<lambda>cell.
     and_then (str_split CHR '';'' cell) (\<lambda>segments.
     Inr (row(KStr ''segments'' \<mapsto> Lst segments))))))"

fun read_loop :: "MetadataList \<Rightarrow> Metadata list \<Rightarrow> error + MetadataList" where
  "read_loop self [] = Inr self"
| "read_loop self (row # rows) =
     and_then (read_row row) (\<lambda>row. read_loop (fst (add_item self row)) rows)"

text \<open>
  \<^verbatim>\<open>read_from_csv(self, input_csv)\<close>: the result is the collection after the call. An
  exception of the reader ends the loop after the rows read before it. When \<^verbatim>\<open>open\<close> fails,
  or the first read of the file fails, no row has been read.
\<close>

definition read_from_csv :: "MetadataList \<Rightarrow> filesystem \<Rightarrow> string \<Rightarrow> error + MetadataList" where
  "read_from_csv self fs input_csv =
     (case fs input_csv of
        File text \<Rightarrow>
          (case csv_reader (readlines (universal_newlines text)) of
             (rows, err) \<Rightarrow>
               and_then (read_loop self (DictReader rows)) (\<lambda>self.
               case err of None \<Rightarrow> Inr self | Some e \<Rightarrow> Inl e))
      | Undecodable msg \<Rightarrow> Inl (ValueError msg)
      | Unreadable \<Rightarrow> Inl OSError
      | Absent \<Rightarrow> Inl (open_error input_csv)
      | Unopenable \<Rightarrow> Inl (open_error input_csv))"

section \<open>VLCPlayer\<close>

text \<open>
  The player is seen through the calls it makes on the operating system, oldest first:
  opening \<^verbatim>\<open>os.devnull\<close>, starting the child with \<^verbatim>\<open>subprocess.Popen\<close>, \<^verbatim>\<open>terminate()\<close> on
  the child and \<^verbatim>\<open>close()\<close> on the sink. \<^verbatim>\<open>Popen\<close> raises \<^verbatim>\<open>OSError\<close> when the program cannot
  be started. \<open>Other\<close> stands for whatever else the body of a \<^verbatim>\<open>with\<close> block does.
\<close>

datatype call = Open_devnull | Popen "string list" | Terminate | Close_devnull | Other string

record system =
  calls :: "call list"
  vlc_starts :: bool

definition do_call :: "call \<Rightarrow> system \<Rightarrow> system" where
  "do_call c sys = sys\<lparr>calls := calls sys @ [c]\<rparr>"

text \<open>\<^verbatim>\<open>__enter__\<close>, for a player made by \<^verbatim>\<open>VLCPlayer(path)\<close>.\<close>

definition VLCPlayer_enter :: "string \<Rightarrow> system \<Rightarrow> error option \<times> system" where
  "VLCPlayer_enter path sys =
     (let sys = do_call Open_devnull sys
      in if vlc_starts sys then (None, do_call (Popen [''vlc'', path]) sys)
         else (Some OSError, sys))"

text \<open>\<^verbatim>\<open>__exit__\<close>: it returns \<^verbatim>\<open>None\<close>, so an exception of the body is raised again.\<close>

definition VLCPlayer_exit :: "system \<Rightarrow> system" where
  "VLCPlayer_exit sys = do_call Close_devnull (do_call Terminate sys)"

text \<open>
  \<^verbatim>\<open>with VLCPlayer(path): body\<close>. When \<^verbatim>\<open>__enter__\<close> raises, the body and \<^verbatim>\<open>__exit__\<close> do not
  run. Otherwise the body runs, and \<^verbatim>\<open>__exit__\<close> runs whether the body returned or raised.
\<close>

definition with_VLCPlayer ::
  "string \<Rightarrow> (system \<Rightarrow> error option \<times> system) \<Rightarrow> system \<Rightarrow> error option \<times> system" where
  "with_VLCPlayer path body sys =
     (case VLCPlayer_enter path sys of
        (Some e, sys1) \<Rightarrow> (Some e, sys1)
      | (None, sys1) \<Rightarrow> (case body sys1 of (r, sys2) \<Rightarrow> (r, VLCPlayer_exit sys2)))"

section \<open>Notions of the specification\<close>

text \<open>
  The first record in insertion order, among the slots that are neither \<^verbatim>\<open>None\<close> nor an
  empty record, whose field \<open>key\<close> has the value \<open>value\<close>; \<open>None\<close> when there is none.
\<close>

definition first_match :: "MetadataList \<Rightarrow> pykey \<Rightarrow> pyval \<Rightarrow> Metadata option" where
  "first_match self key value =
     (case filter (\<lambda>item. case item of None \<Rightarrow> False
                          | Some d \<Rightarrow> d \<noteq> Map.empty \<and> d key = Some value) self of
        [] \<Rightarrow> None
      | item # _ \<Rightarrow> item)"

text \<open>
  What it means for a pattern to match: \<open>sem r i w rest g g'\<close> says that \<open>r\<close>, at position \<open>i\<close>
  with the captures \<open>g\<close>, matches exactly the word \<open>w\<close>, followed in the subject by \<open>rest\<close>,
  and leaves the captures \<open>g'\<close>.
\<close>

fun sem :: "regex \<Rightarrow> nat \<Rightarrow> string \<Rightarrow> string \<Rightarrow> captures \<Rightarrow> captures \<Rightarrow> bool" where
  "sem Bol i w rest g g' = (w = [] \<and> i = 0 \<and> g' = g)"
| "sem Eol i w rest g g' = (w = [] \<and> (rest = [] \<or> rest = [CHR 0x0A]) \<and> g' = g)"
| "sem (Cls c) i w rest g g' = ((\<exists>x. w = [x] \<and> in_class c x) \<and> g' = g)"
| "sem (Seq a b) i w rest g g' =
     (\<exists>w1 w2 g1. w = w1 @ w2 \<and> sem a i w1 (w2 @ rest) g g1 \<and> sem b (i + length w1) w2 rest g1 g')"
| "sem (Opt r) i w rest g g' = (sem r i w rest g g' \<or> (w = [] \<and> g' = g))"
| "sem (Star c) i w rest g g' = (list_all (in_class c) w \<and> g' = g)"
| "sem (Group n r) i w rest g g' = (\<exists>g0. sem r i w rest g g0 \<and> g' = g0(n \<mapsto> w))"

text \<open>
  The texts the pattern of \<^verbatim>\<open>segment_seconds\<close> accepts. A timestamp is an optional pair of
  digits (hours), an optional colon, two digits from 00 to 59 (minutes), an optional
  colon and two digits from 00 to 59 (seconds). A segment is a timestamp, optional white
  space, one of the separators \<^verbatim>\<open>-|+;\<close>, optional white space, a timestamp and at most one
  final line feed. \<open>timestamp_text (hh, mm, ss) t\<close> says that \<open>t\<close> is a timestamp with these
  hours, minutes and seconds.
\<close>

definition two_digits_text :: "string \<Rightarrow> bool" where
  "two_digits_text h = (\<exists>a b. h = [a, b] \<and> is_digit a \<and> is_digit b)"

definition sixty_text :: "string \<Rightarrow> bool" where
  "sixty_text m = (\<exists>a b. m = [a, b] \<and> a \<in> set ''012345'' \<and> is_digit b)"

definition timestamp_text :: "string option \<times> string \<times> string \<Rightarrow> string \<Rightarrow> bool" where
  "timestamp_text ts t =
     (case ts of (hh, mm, ss) \<Rightarrow>
        (case hh of None \<Rightarrow> True | Some h \<Rightarrow> two_digits_text h) \<and> sixty_text mm \<and> sixty_text ss \<and>
        (\<exists>c1 c2. (c1 = [] \<or> c1 = '':'') \<and> (c2 = [] \<or> c2 = '':'') \<and>
           t = (case hh of None \<Rightarrow> [] | Some h \<Rightarrow> h) @ c1 @ mm @ c2 @ ss))"

definition segment_text ::
  "string option \<times> string \<times> string \<Rightarrow> string option \<times> string \<times> string \<Rightarrow> string \<Rightarrow> bool" where
  "segment_text start end s =
     (\<exists>t1 w1 sep w2 t2 nl.
        s = t1 @ w1 @ [sep] @ w2 @ t2 @ nl \<and>
        timestamp_text start t1 \<and> list_all is_space w1 \<and> sep \<in> set ''-|+;'' \<and>
        list_all is_space w2 \<and> timestamp_text end t2 \<and> (nl = [] \<or> nl = [CHR 0x0A]))"

text \<open>The seconds a timestamp stands for.\<close>

definition seconds_of :: "string option \<times> string \<times> string \<Rightarrow> int" where
  "seconds_of ts =
     (case ts of (hh, mm, ss) \<Rightarrow>
        (case hh of None \<Rightarrow> 0 | Some h \<Rightarrow> py_int h) * 3600 + py_int mm * 60 + py_int ss)"

text \<open>The characters of a timestamp, and the text of its hours.\<close>

definition ts_char :: "char \<Rightarrow> bool" where
  "ts_char c = (is_digit c \<or> c = CHR '':'')"

definition hours_text :: "string option \<Rightarrow> string" where
  "hours_text hh = (case hh of None \<Rightarrow> [] | Some h \<Rightarrow> h)"

text \<open>
  The grammar as the specification words it, \<^verbatim>\<open>[[HH]:]MM:SS <sep> [[HH]:]MM:SS\<close>: the colon
  between minutes and seconds is part of a timestamp, and so is the colon after the
  hours; nothing follows the second timestamp.
\<close>

definition spec_timestamp :: "string \<Rightarrow> bool" where
  "spec_timestamp t =
     (\<exists>pre mm ss. t = pre @ mm @ '':'' @ ss \<and> sixty_text mm \<and> sixty_text ss \<and>
        (pre = [] \<or> pre = '':'' \<or> (\<exists>h. two_digits_text h \<and> pre = h @ '':'')))"

definition spec_segment :: "string \<Rightarrow> bool" where
  "spec_segment s =
     (\<exists>t1 w1 sep w2 t2.
        s = t1 @ w1 @ [sep] @ w2 @ t2 \<and>
        spec_timestamp t1 \<and> list_all is_space w1 \<and> sep \<in> set ''-|+;'' \<and>
        list_all is_space w2 \<and> spec_timestamp t2)"

text \<open>
  Rendering a number of seconds as \<^verbatim>\<open>HH:MM:SS\<close> with two digits in each place, and a pair
  of them as \<^verbatim>\<open>HH:MM:SS-HH:MM:SS\<close>.
\<close>

definition digit_char :: "nat \<Rightarrow> char" where
  "digit_char d = ''0123456789'' ! d"

definition two_digits :: "nat \<Rightarrow> string" where
  "two_digits n = [digit_char (n div 10), digit_char (n mod 10)]"

definition render_hms :: "nat \<Rightarrow> string" where
  "render_hms t =
     two_digits (t div 3600) @ '':'' @ two_digits (t div 60 mod 60) @ '':'' @ two_digits (t mod 60)"

definition render_segment :: "nat \<Rightarrow> nat \<Rightarrow> string" where
  "render_segment a b = render_hms a @ ''-'' @ render_hms b"

text \<open>
  The records of a collection that get a row: the slots that hold a record with at
  least one field, in insertion order.
\<close>

fun records :: "MetadataList \<Rightarrow> Metadata list" where
  "records [] = []"
| "records (None # self) = records self"
| "records (Some d # self) = (if d = Map.empty then records self else d # records self)"

text \<open>
  A record as the data model of the specification has it: the fields \<^verbatim>\<open>filepath\<close>,
  \<^verbatim>\<open>event_name\<close> and \<^verbatim>\<open>title\<close> hold strings, \<^verbatim>\<open>speakers\<close> and \<^verbatim>\<open>segments\<close> hold lists of
  strings. \<open>record_row\<close> is the row of cells of such a record: the three texts, then the
  speakers and the segments each joined with a semicolon.
\<close>

fun is_text :: "pyval option \<Rightarrow> bool" where
  "is_text (Some (Str s)) = True"
| "is_text _ = False"

fun is_list :: "pyval option \<Rightarrow> bool" where
  "is_list (Some (Lst xs)) = True"
| "is_list _ = False"

fun text_of :: "pyval option \<Rightarrow> string" where
  "text_of (Some (Str s)) = s"
| "text_of _ = []"

fun list_of :: "pyval option \<Rightarrow> string list" where
  "list_of (Some (Lst xs)) = xs"
| "list_of _ = []"

definition complete_record :: "Metadata \<Rightarrow> bool" where
  "complete_record d =
     (is_text (d (KStr ''filepath'')) \<and> is_text (d (KStr ''event_name'')) \<and>
      is_text (d (KStr ''title'')) \<and> is_list (d (KStr ''speakers'')) \<and>
      is_list (d (KStr ''segments'')))"

definition record_row :: "Metadata \<Rightarrow> string list" where
  "record_row d =
     [text_of (d (KStr ''filepath'')), text_of (d (KStr ''event_name'')),
      text_of (d (KStr ''title'')), join '';'' (list_of (d (KStr ''speakers''))),
      join '';'' (list_of (d (KStr ''segments'')))]"

text \<open>The record of the scenario in the specification.\<close>

definition example_record :: Metadata where
  "example_record =
     [KStr ''filepath'' \<mapsto> Str ''t.mp3'', KStr ''event_name'' \<mapsto> Str ''E'',
      KStr ''title'' \<mapsto> Str ''T'', KStr ''speakers'' \<mapsto> Lst [''A'', ''B''],
      KStr ''segments'' \<mapsto> Lst [''00:10-00:20'']]"

text \<open>
  For the reader: the doubling of quotes inside a quoted field, the text of a row as the
  reader receives it (ended by LF, after the translation of line ends), and the reader
  resumed in the middle of a line (\<open>cont self rest\<close>: what the reader in state \<open>self\<close>
  produces when \<open>rest\<close> is the text still to come, starting inside the current line).
\<close>

definition escape_quotes :: "string \<Rightarrow> string" where
  "escape_quotes s = concat (map (\<lambda>c. if c = CHR 0x22 then [c, c] else [c]) s)"

definition row_text :: "string list \<Rightarrow> string" where
  "row_text cells = join '','' (map quote_field cells) @ [CHR 0x0A]"

definition cont :: "reader \<Rightarrow> string \<Rightarrow> string list list \<times> error option" where
  "cont self rest = reader_rows self (if rest = [] then [[]] else readlines rest)"

text \<open>
  What \<^verbatim>\<open>read_from_csv\<close> makes of the row \<^verbatim>\<open>write_to_csv\<close> wrote for a record: line ends are
  translated in every cell, and the speakers and segments cells are split at semicolons.
\<close>

definition reread :: "Metadata \<Rightarrow> Metadata" where
  "reread d =
     [KStr ''filepath'' \<mapsto> Str (universal_newlines (text_of (d (KStr ''filepath'')))),
      KStr ''event_name'' \<mapsto> Str (universal_newlines (text_of (d (KStr ''event_name'')))),
      KStr ''title'' \<mapsto> Str (universal_newlines (text_of (d (KStr ''title'')))),
      KStr ''speakers'' \<mapsto>
        Lst (split CHR '';'' (universal_newlines (join '';'' (list_of (d (KStr ''speakers'')))))),
      KStr ''segments'' \<mapsto>
        Lst (split CHR '';'' (universal_newlines (join '';'' (list_of (d (KStr ''segments''))))))]"

text \<open>
  For the round trip: a record that holds the five fields and no other, whose cells
  contain no carriage return and are within the field size limit of the reader, and whose
  speakers and segments contain no \<^verbatim>\<open>;\<close>. \<open>read_back d\<close> is \<open>d\<close> with an empty list of
  speakers or segments replaced by the list of one empty string.
\<close>

definition plain_record :: "Metadata \<Rightarrow> bool" where
  "plain_record d =
     (complete_record d \<and> dom d = KStr ` set KEYS \<and>
      list_all (\<lambda>x. length x \<le> field_limit \<and> CHR 0x0D \<notin> set x) (record_row d) \<and>
      list_all (\<lambda>x. CHR '';'' \<notin> set x)
        (list_of (d (KStr ''speakers'')) @ list_of (d (KStr ''segments''))))"

definition read_back :: "Metadata \<Rightarrow> Metadata" where
  "read_back d =
     d(KStr ''speakers'' \<mapsto>
         Lst (if list_of (d (KStr ''speakers'')) = [] then [[]] else list_of (d (KStr ''speakers''))),
       KStr ''segments'' \<mapsto>
         Lst (if list_of (d (KStr ''segments'')) = [] then [[]] else list_of (d (KStr ''segments''))))"


section \<open>The matcher and its meaning\<close>

lemma takeWhile_prefix_all:
  "k \<le> length (takeWhile P xs) \<Longrightarrow> list_all P (take k xs)"
proof (induction xs arbitrary: k)
  case Nil
  then show ?case by simp
next
  case (Cons x xs)
  then show ?case by (cases k) (auto split: if_splits)
qed

lemma rmatch_Star_iff:
  "(j, r', g') \<in> set (rmatch (Star c) (i, r, g)) \<longleftrightarrow>
     (\<exists>w. r = w @ r' \<and> j = i + length w \<and> list_all (in_class c) w \<and> g' = g)"
proof -
  let ?n = "length (takeWhile (in_class c) r)"
  have "(j, r', g') \<in> set (rmatch (Star c) (i, r, g)) \<longleftrightarrow>
          (\<exists>k \<le> ?n. j = i + k \<and> r' = drop k r) \<and> g' = g"
    by (auto simp: image_iff less_Suc_eq_le)
  also have "(\<exists>k \<le> ?n. j = i + k \<and> r' = drop k r) \<longleftrightarrow>
          (\<exists>w. r = w @ r' \<and> list_all (in_class c) w \<and> j = i + length w)"
  proof
    assume "\<exists>k \<le> ?n. j = i + k \<and> r' = drop k r"
    then obtain k where k: "k \<le> ?n" "j = i + k" "r' = drop k r" by blast
    have "k \<le> length r" using k(1) length_takeWhile_le[of "in_class c" r] by linarith
    with k takeWhile_prefix_all[OF k(1)] show "\<exists>w. r = w @ r' \<and> list_all (in_class c) w \<and> j = i + length w"
      by (intro exI[of _ "take k r"]) simp
  next
    assume "\<exists>w. r = w @ r' \<and> list_all (in_class c) w \<and> j = i + length w"
    then obtain w where w: "r = w @ r'" "list_all (in_class c) w" "j = i + length w" by blast
    have "takeWhile (in_class c) r = w @ takeWhile (in_class c) r'"
      using w by (simp add: list_all_iff takeWhile_append2)
    then have "length w \<le> ?n" by simp
    with w show "\<exists>k \<le> ?n. j = i + k \<and> r' = drop k r"
      by (intro exI[of _ "length w"]) simp
  qed
  finally show ?thesis by blast
qed

lemma rmatch_sem:
  "(j, r', g') \<in> set (rmatch x (i, r, g)) \<longleftrightarrow>
     (\<exists>w. r = w @ r' \<and> j = i + length w \<and> sem x i w r' g g')"
proof (induction x arbitrary: i r g j r' g')
  case Bol
  show ?case by auto
next
  case Eol
  show ?case by auto
next
  case (Cls c)
  show ?case by (cases r) auto
next
  case (Seq a b)
  have "(j, r', g') \<in> set (rmatch (Seq a b) (i, r, g)) \<longleftrightarrow>
        (\<exists>j1 r1 g1. (j1, r1, g1) \<in> set (rmatch a (i, r, g)) \<and> (j, r', g') \<in> set (rmatch b (j1, r1, g1)))"
    by auto
  also have "\<dots> \<longleftrightarrow> (\<exists>j1 r1 g1. (\<exists>w1. r = w1 @ r1 \<and> j1 = i + length w1 \<and> sem a i w1 r1 g g1) \<and>
        (\<exists>w2. r1 = w2 @ r' \<and> j = j1 + length w2 \<and> sem b j1 w2 r' g1 g'))"
    unfolding Seq.IH ..
  also have "\<dots> \<longleftrightarrow> (\<exists>w. r = w @ r' \<and> j = i + length w \<and> sem (Seq a b) i w r' g g')"
  proof
    assume "\<exists>j1 r1 g1. (\<exists>w1. r = w1 @ r1 \<and> j1 = i + length w1 \<and> sem a i w1 r1 g g1) \<and>
        (\<exists>w2. r1 = w2 @ r' \<and> j = j1 + length w2 \<and> sem b j1 w2 r' g1 g')"
    then obtain j1 r1 g1 w1 w2 where
      "r = w1 @ r1" "j1 = i + length w1" "sem a i w1 r1 g g1"
      "r1 = w2 @ r'" "j = j1 + length w2" "sem b j1 w2 r' g1 g'" by blast
    then show "\<exists>w. r = w @ r' \<and> j = i + length w \<and> sem (Seq a b) i w r' g g'"
      by (intro exI[of _ "w1 @ w2"]) auto
  next
    assume "\<exists>w. r = w @ r' \<and> j = i + length w \<and> sem (Seq a b) i w r' g g'"
    then obtain w1 w2 g1 where
      "r = (w1 @ w2) @ r'" "j = i + length (w1 @ w2)" "sem a i w1 (w2 @ r') g g1"
      "sem b (i + length w1) w2 r' g1 g'" by auto
    then show "\<exists>j1 r1 g1. (\<exists>w1. r = w1 @ r1 \<and> j1 = i + length w1 \<and> sem a i w1 r1 g g1) \<and>
        (\<exists>w2. r1 = w2 @ r' \<and> j = j1 + length w2 \<and> sem b j1 w2 r' g1 g')"
      by (intro exI[of _ "i + length w1"] exI[of _ "w2 @ r'"] exI[of _ g1]) auto
  qed
  finally show ?case .
next
  case (Opt x)
  have "(j, r', g') \<in> set (rmatch (Opt x) (i, r, g)) \<longleftrightarrow>
        (j, r', g') \<in> set (rmatch x (i, r, g)) \<or> (j = i \<and> r' = r \<and> g' = g)"
    by auto
  then show ?case unfolding Opt.IH by auto
next
  case (Star c)
  show ?case unfolding rmatch_Star_iff by simp
next
  case (Group n x)
  have "(j, r', g') \<in> set (rmatch (Group n x) (i, r, g)) \<longleftrightarrow>
     (\<exists>g0. (j, r', g0) \<in> set (rmatch x (i, r, g)) \<and> g' = g0(n \<mapsto> take (j - i) r))"
    by force
  then show ?case unfolding Group.IH by auto
qed

lemma sem_two_classes:
  "sem (Seq (Cls c1) (Cls c2)) i w rest g g' \<longleftrightarrow>
     (\<exists>a b. w = [a, b] \<and> in_class c1 a \<and> in_class c2 b) \<and> g' = g"
proof
  assume "sem (Seq (Cls c1) (Cls c2)) i w rest g g'"
  then obtain a b where "w = [a] @ [b]" "in_class c1 a" "in_class c2 b" "g' = g"
    by (auto simp del: in_class.simps)
  then show "(\<exists>a b. w = [a, b] \<and> in_class c1 a \<and> in_class c2 b) \<and> g' = g" by simp
next
  assume "(\<exists>a b. w = [a, b] \<and> in_class c1 a \<and> in_class c2 b) \<and> g' = g"
  then obtain a b where ab: "w = [a] @ [b]" "in_class c1 a" "in_class c2 b" "g' = g" by auto
  show "sem (Seq (Cls c1) (Cls c2)) i w rest g g'"
    unfolding sem.simps using ab by blast
qed

lemma sem_digit2: "sem digit2 i w rest g g' \<longleftrightarrow> two_digits_text w \<and> g' = g"
  unfolding digit2_def two_digits_text_def sem_two_classes by simp

lemma sem_sixty: "sem sixty i w rest g g' \<longleftrightarrow> sixty_text w \<and> g' = g"
  unfolding sixty_def sixty_text_def sem_two_classes in_class.simps ..

lemma sem_colon_opt: "sem colon_opt i w rest g g' \<longleftrightarrow> (w = [] \<or> w = '':'') \<and> g' = g"
  unfolding colon_opt_def by auto

lemma sem_SeqI:
  "sem a i w1 (w2 @ rest) g g1 \<Longrightarrow> sem b (i + length w1) w2 rest g1 g' \<Longrightarrow>
   sem (Seq a b) i (w1 @ w2) rest g g'"
  unfolding sem.simps(4) by (intro exI[of _ w1] exI[of _ w2] exI[of _ g1]) simp

lemma sem_SeqE:
  assumes "sem (Seq a b) i w rest g g'"
  obtains w1 w2 g1 where "w = w1 @ w2" "sem a i w1 (w2 @ rest) g g1"
    "sem b (i + length w1) w2 rest g1 g'"
  using assms unfolding sem.simps(4) by (elim exE conjE)

lemma sem_opt_hours:
  "sem (Opt (Group n digit2)) i w rest g g' \<longleftrightarrow>
     (two_digits_text w \<and> g' = g(n \<mapsto> w)) \<or> (w = [] \<and> g' = g)"
  unfolding sem.simps(5) sem.simps(7) sem_digit2 by simp

lemma sem_group_sixty:
  "sem (Group n sixty) i w rest g g' \<longleftrightarrow> sixty_text w \<and> g' = g(n \<mapsto> w)"
  unfolding sem.simps(7) sem_sixty by simp

lemma timestamp_textI:
  "(case hh of None \<Rightarrow> True | Some h \<Rightarrow> two_digits_text h) \<Longrightarrow> sixty_text mm \<Longrightarrow> sixty_text ss \<Longrightarrow>
   c1 = [] \<or> c1 = '':'' \<Longrightarrow> c2 = [] \<or> c2 = '':'' \<Longrightarrow>
   t = (case hh of None \<Rightarrow> [] | Some h \<Rightarrow> h) @ c1 @ mm @ c2 @ ss \<Longrightarrow>
   timestamp_text (hh, mm, ss) t"
  unfolding timestamp_text_def prod.case
  by (intro conjI, assumption, assumption, assumption, rule exI[of _ c1], rule exI[of _ c2],
      intro conjI) assumption+

lemma timestamp_textE:
  assumes "timestamp_text (hh, mm, ss) t"
  obtains c1 c2 where "case hh of None \<Rightarrow> True | Some h \<Rightarrow> two_digits_text h"
    "sixty_text mm" "sixty_text ss" "c1 = [] \<or> c1 = '':''" "c2 = [] \<or> c2 = '':''"
    "t = (case hh of None \<Rightarrow> [] | Some h \<Rightarrow> h) @ c1 @ mm @ c2 @ ss"
  using assms unfolding timestamp_text_def prod.case by (elim exE conjE)

lemma sem_timestamp_re:
  "sem (timestamp_re n) i w rest g g' \<longleftrightarrow>
     (\<exists>hh mm ss. timestamp_text (hh, mm, ss) w \<and>
        g' = (case hh of None \<Rightarrow> g | Some h \<Rightarrow> g(n \<mapsto> h))(n + 1 \<mapsto> mm, n + 2 \<mapsto> ss))"
proof
  assume "sem (timestamp_re n) i w rest g g'"
  then obtain wh r1 g1 where 1: "w = wh @ r1"
      and h: "sem (Opt (Group n digit2)) i wh (r1 @ rest) g g1"
      and s1: "sem (Seq colon_opt (Seq (Group (n + 1) sixty) (Seq colon_opt (Group (n + 2) sixty))))
                 (i + length wh) r1 rest g1 g'"
    unfolding timestamp_re_def by (rule sem_SeqE)
  from s1 obtain c1 r2 g2 where 2: "r1 = c1 @ r2"
      and c1: "sem colon_opt (i + length wh) c1 (r2 @ rest) g1 g2"
      and s2: "sem (Seq (Group (n + 1) sixty) (Seq colon_opt (Group (n + 2) sixty)))
                 (i + length wh + length c1) r2 rest g2 g'"
    by (rule sem_SeqE)
  from s2 obtain mm r3 g3 where 3: "r2 = mm @ r3"
      and mm: "sem (Group (n + 1) sixty) (i + length wh + length c1) mm (r3 @ rest) g2 g3"
      and s3: "sem (Seq colon_opt (Group (n + 2) sixty))
                 (i + length wh + length c1 + length mm) r3 rest g3 g'"
    by (rule sem_SeqE)
  from s3 obtain c2 ss g4 where 4: "r3 = c2 @ ss"
      and c2: "sem colon_opt (i + length wh + length c1 + length mm) c2 (ss @ rest) g3 g4"
      and ss: "sem (Group (n + 2) sixty)
                 (i + length wh + length c1 + length mm + length c2) ss rest g4 g'"
    by (rule sem_SeqE)
  have w: "w = wh @ c1 @ mm @ c2 @ ss" using 1 2 3 4 by simp
  have g2: "g2 = g1" and c1': "c1 = [] \<or> c1 = '':''" using c1 by (simp_all add: sem_colon_opt)
  from mm have "sixty_text mm \<and> g3 = g2(n + 1 \<mapsto> mm)" by (simp only: sem_group_sixty)
  then have g3: "g3 = g1(n + 1 \<mapsto> mm)" and mm': "sixty_text mm"
    using g2 by simp_all
  have g4: "g4 = g3" and c2': "c2 = [] \<or> c2 = '':''" using c2 by (simp_all add: sem_colon_opt)
  from ss have "sixty_text ss \<and> g' = g4(n + 2 \<mapsto> ss)" by (simp only: sem_group_sixty)
  then have g': "g' = g1(n + 1 \<mapsto> mm, n + 2 \<mapsto> ss)" and ss': "sixty_text ss"
    using g3 g4 by simp_all
  from h have "(two_digits_text wh \<and> g1 = g(n \<mapsto> wh)) \<or> (wh = [] \<and> g1 = g)"
    by (simp only: sem_opt_hours)
  then show "\<exists>hh mm ss. timestamp_text (hh, mm, ss) w \<and>
        g' = (case hh of None \<Rightarrow> g | Some h \<Rightarrow> g(n \<mapsto> h))(n + 1 \<mapsto> mm, n + 2 \<mapsto> ss)"
  proof
    assume a: "two_digits_text wh \<and> g1 = g(n \<mapsto> wh)"
    have "timestamp_text (Some wh, mm, ss) w"
      by (rule timestamp_textI[OF _ mm' ss' c1' c2']) (simp_all add: a w)
    with a g' show ?thesis
      by (intro exI[of _ "Some wh"] exI[of _ mm] exI[of _ ss]) simp
  next
    assume a: "wh = [] \<and> g1 = g"
    have "timestamp_text (None, mm, ss) w"
      by (rule timestamp_textI[OF _ mm' ss' c1' c2']) (simp_all add: a w)
    with a g' show ?thesis
      by (intro exI[of _ "None"] exI[of _ mm] exI[of _ ss]) simp
  qed
next
  assume "\<exists>hh mm ss. timestamp_text (hh, mm, ss) w \<and>
        g' = (case hh of None \<Rightarrow> g | Some h \<Rightarrow> g(n \<mapsto> h))(n + 1 \<mapsto> mm, n + 2 \<mapsto> ss)"
  then obtain hh mm ss where tt: "timestamp_text (hh, mm, ss) w"
    and g': "g' = (case hh of None \<Rightarrow> g | Some h \<Rightarrow> g(n \<mapsto> h))(n + 1 \<mapsto> mm, n + 2 \<mapsto> ss)"
    by (elim exE conjE)
  from tt obtain c1 c2 where
    t: "case hh of None \<Rightarrow> True | Some h \<Rightarrow> two_digits_text h" "sixty_text mm" "sixty_text ss"
       "c1 = [] \<or> c1 = '':''" "c2 = [] \<or> c2 = '':''"
       "w = (case hh of None \<Rightarrow> [] | Some h \<Rightarrow> h) @ c1 @ mm @ c2 @ ss"
    by (rule timestamp_textE)
  let ?wh = "case hh of None \<Rightarrow> [] | Some h \<Rightarrow> h"
  let ?g1 = "case hh of None \<Rightarrow> g | Some h \<Rightarrow> g(n \<mapsto> h)"
  have 1: "sem (Opt (Group n digit2)) i ?wh r g ?g1" for r
    using t(1) by (cases hh) (simp_all only: sem_opt_hours option.case simp_thms)
  have 2: "sem colon_opt j c1 r g0 g0" for j r g0 using t(4) by (simp add: sem_colon_opt)
  have 3: "sem (Group k sixty) j mm r g0 (g0(k \<mapsto> mm))" for j r g0 k
    using t(2) by (simp only: sem_group_sixty simp_thms)
  have 4: "sem colon_opt j c2 r g0 g0" for j r g0 using t(5) by (simp add: sem_colon_opt)
  have 5: "sem (Group k sixty) j ss r g0 (g0(k \<mapsto> ss))" for j r g0 k
    using t(3) by (simp only: sem_group_sixty simp_thms)
  have "sem (timestamp_re n) i (?wh @ c1 @ mm @ c2 @ ss) rest g (?g1(n + 1 \<mapsto> mm, n + 2 \<mapsto> ss))"
    unfolding timestamp_re_def
    by (rule sem_SeqI[OF 1] sem_SeqI[OF 2] sem_SeqI[OF 3] sem_SeqI[OF 4] 5)+
  then show "sem (timestamp_re n) i w rest g g'" by (simp only: t(6) g')
qed

lemma space_not_ts_char: "is_space c \<Longrightarrow> \<not> ts_char c"
  by (auto simp: is_space_def ts_char_def is_digit_def)

lemma sep_not_ts_char: "c \<in> set ''-|+;'' \<Longrightarrow> \<not> ts_char c"
  by (auto simp: ts_char_def is_digit_def)

lemma sep_not_space: "c \<in> set ''-|+;'' \<Longrightarrow> \<not> is_space c"
  by (auto simp: is_space_def)

lemma lf_not_ts_char: "\<not> ts_char (CHR 0x0A)"
  by (simp add: ts_char_def is_digit_def)

lemma digit_not_colon: "is_digit c \<Longrightarrow> c \<noteq> CHR '':''"
  by (auto simp: is_digit_def)

lemma lead_is_digit: "c \<in> set ''012345'' \<Longrightarrow> is_digit c"
  by (auto simp: is_digit_def)

lemma takeWhile_append_stop:
  "list_all P xs \<Longrightarrow> ys = [] \<or> \<not> P (hd ys) \<Longrightarrow> takeWhile P (xs @ ys) = xs"
  by (induction xs) (cases ys; auto)+

lemma groups_6: "groups 6 g = [g 1, g 2, g 3, g 4, g 5, g 6]"
  by (simp add: groups_def upt_rec eval_nat_numeral)

lemma two_digits_textD:
  "two_digits_text h \<Longrightarrow> length h = 2 \<and> list_all is_digit h"
  by (auto simp: two_digits_text_def)

lemma sixty_textD:
  "sixty_text m \<Longrightarrow> length m = 2 \<and> list_all is_digit m"
  by (auto simp: sixty_text_def lead_is_digit simp del: set_simps)

lemma digits_filter:
  "list_all is_digit xs \<Longrightarrow> filter (\<lambda>c. c \<noteq> CHR '':'') xs = xs"
  by (induction xs) (auto simp: digit_not_colon)

lemma digits_ts_chars: "list_all is_digit xs \<Longrightarrow> list_all ts_char xs"
  by (induction xs) (auto simp: ts_char_def)

lemma timestamp_text_digits:
  assumes "timestamp_text (hh, mm, ss) t"
  shows "filter (\<lambda>c. c \<noteq> CHR '':'') t = hours_text hh @ mm @ ss"
    and "list_all ts_char t" and "t \<noteq> []" and "ts_char (hd t)"
    and "length mm = 2" and "length ss = 2"
    and "hh = None \<or> (\<exists>h. hh = Some h \<and> length h = 2)"
proof -
  from assms obtain c1 c2 where
    t: "case hh of None \<Rightarrow> True | Some h \<Rightarrow> two_digits_text h" "sixty_text mm" "sixty_text ss"
       "c1 = [] \<or> c1 = '':''" "c2 = [] \<or> c2 = '':''"
       "t = (case hh of None \<Rightarrow> [] | Some h \<Rightarrow> h) @ c1 @ mm @ c2 @ ss"
    by (rule timestamp_textE)
  have h: "list_all is_digit (hours_text hh)" "hh = None \<or> (\<exists>h. hh = Some h \<and> length h = 2)"
    using t(1) by (cases hh; simp add: hours_text_def two_digits_textD)+
  have m: "list_all is_digit mm" "length mm = 2" using t(2) by (simp_all add: sixty_textD)
  have s: "list_all is_digit ss" "length ss = 2" using t(3) by (simp_all add: sixty_textD)
  have c: "filter (\<lambda>c. c \<noteq> CHR '':'') c1 = []" "filter (\<lambda>c. c \<noteq> CHR '':'') c2 = []"
          "list_all ts_char c1" "list_all ts_char c2"
    using t(4,5) by (auto simp: ts_char_def)
  have t': "t = hours_text hh @ c1 @ mm @ c2 @ ss" using t(6) by (simp add: hours_text_def)
  show "filter (\<lambda>c. c \<noteq> CHR '':'') t = hours_text hh @ mm @ ss"
    unfolding t' by (simp add: c digits_filter h m s)
  show all: "list_all ts_char t"
    unfolding t' by (simp add: c digits_ts_chars h m s)
  show ne: "t \<noteq> []" unfolding t' using s(2) by auto
  from all ne show "ts_char (hd t)" by (cases t) simp_all
  show "length mm = 2" "length ss = 2" by (rule m s)+
  show "hh = None \<or> (\<exists>h. hh = Some h \<and> length h = 2)" by (rule h)
qed

lemma timestamp_text_unique:
  assumes "timestamp_text (hh, mm, ss) t" "timestamp_text (hh', mm', ss') t"
  shows "hh = hh' \<and> mm = mm' \<and> ss = ss'"
proof -
  note a = timestamp_text_digits[OF assms(1)] and b = timestamp_text_digits[OF assms(2)]
  have eq: "hours_text hh @ mm @ ss = hours_text hh' @ mm' @ ss'"
    using a(1) b(1) by simp
  then have "length (hours_text hh @ mm @ ss) = length (hours_text hh' @ mm' @ ss')" by simp
  then have len: "length (hours_text hh) = length (hours_text hh')"
    using a(5,6) b(5,6) by simp
  with eq have 1: "hours_text hh = hours_text hh'" and 2: "mm @ ss = mm' @ ss'" by simp_all
  from 2 a(5) b(5) have 3: "mm = mm'" "ss = ss'" by simp_all
  from 1 a(7) b(7) have "hh = hh'" by (auto simp: hours_text_def)
  with 3 show ?thesis by simp
qed

lemma sem_separator_re:
  "sem separator_re i w rest g g' \<longleftrightarrow>
     (\<exists>w1 sep w2. w = w1 @ [sep] @ w2 \<and> list_all is_space w1 \<and> sep \<in> set ''-|+;'' \<and>
        list_all is_space w2) \<and> g' = g"
proof
  assume "sem separator_re i w rest g g'"
  then obtain w1 r1 g1 where 1: "w = w1 @ r1" and a: "sem (Star Space) i w1 (r1 @ rest) g g1"
    and b: "sem (Seq (Cls (OneOf ''-|+;'')) (Star Space)) (i + length w1) r1 rest g1 g'"
    unfolding separator_re_def by (rule sem_SeqE)
  from b obtain ws w2 g2 where 2: "r1 = ws @ w2"
    and c: "sem (Cls (OneOf ''-|+;'')) (i + length w1) ws (w2 @ rest) g1 g2"
    and d: "sem (Star Space) (i + length w1 + length ws) w2 rest g2 g'"
    by (rule sem_SeqE)
  from c obtain sep where sep: "ws = [sep]" "sep \<in> set ''-|+;''" "g2 = g1"
    unfolding sem.simps in_class.simps by blast
  from a have a': "list_all is_space w1" "g1 = g"
    unfolding sem.simps by (simp_all add: list_all_iff)
  from d have d': "list_all is_space w2" "g' = g2"
    unfolding sem.simps by (simp_all add: list_all_iff)
  have "w = w1 @ [sep] @ w2" using 1 2 sep(1) by simp
  with a' d' sep show "(\<exists>w1 sep w2. w = w1 @ [sep] @ w2 \<and> list_all is_space w1 \<and>
      sep \<in> set ''-|+;'' \<and> list_all is_space w2) \<and> g' = g"
    by blast
next
  assume "(\<exists>w1 sep w2. w = w1 @ [sep] @ w2 \<and> list_all is_space w1 \<and> sep \<in> set ''-|+;'' \<and>
        list_all is_space w2) \<and> g' = g"
  then obtain w1 sep w2 where w: "w = w1 @ [sep] @ w2" and s1: "list_all is_space w1"
    and sep: "sep \<in> set ''-|+;''" and s2: "list_all is_space w2" and g': "g' = g"
    by blast
  have a: "sem (Star Space) j w1 r g g" for j r
    unfolding sem.simps using s1 by (simp add: list_all_iff)
  have b: "sem (Cls (OneOf ''-|+;'')) j [sep] r g g" for j r
    unfolding sem.simps in_class.simps using sep by blast
  have c: "sem (Star Space) j w2 r g g" for j r
    unfolding sem.simps using s2 by (simp add: list_all_iff)
  have "sem separator_re i (w1 @ [sep] @ w2) rest g g"
    unfolding separator_re_def by (rule sem_SeqI[OF a] sem_SeqI[OF b] c)+
  then show "sem separator_re i w rest g g'" by (simp only: w g')
qed

lemma segment_textI:
  "timestamp_text start t1 \<Longrightarrow> list_all is_space w1 \<Longrightarrow> sep \<in> set ''-|+;'' \<Longrightarrow>
   list_all is_space w2 \<Longrightarrow> timestamp_text end t2 \<Longrightarrow> nl = [] \<or> nl = [CHR 0x0A] \<Longrightarrow>
   s = t1 @ w1 @ [sep] @ w2 @ t2 @ nl \<Longrightarrow> segment_text start end s"
  unfolding segment_text_def
  by (rule exI[of _ t1], rule exI[of _ w1], rule exI[of _ sep], rule exI[of _ w2],
      rule exI[of _ t2], rule exI[of _ nl], intro conjI) assumption+

lemma segment_textE:
  assumes "segment_text start end s"
  obtains t1 w1 sep w2 t2 nl where "s = t1 @ w1 @ [sep] @ w2 @ t2 @ nl"
    "timestamp_text start t1" "list_all is_space w1" "sep \<in> set ''-|+;''"
    "list_all is_space w2" "timestamp_text end t2" "nl = [] \<or> nl = [CHR 0x0A]"
  using assms unfolding segment_text_def by (elim exE conjE)

lemma timestamp_groups:
  fixes n :: nat and g :: captures
  assumes "g' = (case hh of None \<Rightarrow> g | Some h \<Rightarrow> g(n \<mapsto> h))(n + 1 \<mapsto> mm, n + 2 \<mapsto> ss)"
  shows "g' (n + 2) = Some ss" "g' (n + 1) = Some mm" "g n = None \<Longrightarrow> g' n = hh"
    "k \<noteq> n \<Longrightarrow> k \<noteq> n + 1 \<Longrightarrow> k \<noteq> n + 2 \<Longrightarrow> g' k = g k"
proof -
  show "g' (n + 2) = Some ss" by (simp only: assms fun_upd_same)
  have ne: "n + 1 \<noteq> n + 2" "n \<noteq> n + 1" "n \<noteq> n + 2" by arith+
  show "g' (n + 1) = Some mm" using ne(1) by (simp only: assms fun_upd_apply if_False if_True refl)
  show "g' n = hh" if "g n = None"
    using ne(2,3) that by (cases hh) (simp_all only: assms fun_upd_apply option.case if_False if_True refl)
  show "g' k = g k" if "k \<noteq> n" "k \<noteq> n + 1" "k \<noteq> n + 2"
    using that by (cases hh) (simp_all only: assms fun_upd_apply option.case if_False)
qed

lemma pattern_sound:
  assumes "(j, r', g') \<in> set (rmatch pattern (i, s, Map.empty))"
  shows "\<exists>h1 m1 s1 h2 m2 s2. segment_text (h1, m1, s1) (h2, m2, s2) s \<and>
           groups 6 g' = [h1, Some m1, Some s1, h2, Some m2, Some s2]"
proof -
  from assms[unfolded rmatch_sem] obtain w where s: "s = w @ r'"
    and sem: "sem pattern i w r' Map.empty g'"
    by (elim exE conjE)
  from sem obtain w0 x1 g0 where 0: "w = w0 @ x1" and bol: "sem Bol i w0 (x1 @ r') Map.empty g0"
    and a: "sem (Seq (timestamp_re 1) (Seq separator_re (Seq (timestamp_re 4) Eol)))
              (i + length w0) x1 r' g0 g'"
    unfolding pattern_def by (rule sem_SeqE)
  from a obtain t1 x2 g1 where 1: "x1 = t1 @ x2"
    and ts1: "sem (timestamp_re 1) (i + length w0) t1 (x2 @ r') g0 g1"
    and b: "sem (Seq separator_re (Seq (timestamp_re 4) Eol)) (i + length w0 + length t1) x2 r' g1 g'"
    by (rule sem_SeqE)
  from b obtain sp x3 g2 where 2: "x2 = sp @ x3"
    and sep: "sem separator_re (i + length w0 + length t1) sp (x3 @ r') g1 g2"
    and c: "sem (Seq (timestamp_re 4) Eol) (i + length w0 + length t1 + length sp) x3 r' g2 g'"
    by (rule sem_SeqE)
  from c obtain t2 x4 g3 where 3: "x3 = t2 @ x4"
    and ts2: "sem (timestamp_re 4) (i + length w0 + length t1 + length sp) t2 (x4 @ r') g2 g3"
    and eol: "sem Eol (i + length w0 + length t1 + length sp + length t2) x4 r' g3 g'"
    by (rule sem_SeqE)
  from bol have w0: "w0 = []" "g0 = Map.empty" by simp_all
  from eol have x4: "x4 = []" "r' = [] \<or> r' = [CHR 0x0A]" "g' = g3" by simp_all
  from ts1[unfolded sem_timestamp_re] obtain h1 m1 s1 where tt1: "timestamp_text (h1, m1, s1) t1"
    and g1: "g1 = (case h1 of None \<Rightarrow> g0 | Some h \<Rightarrow> g0(1 \<mapsto> h))(1 + 1 \<mapsto> m1, 1 + 2 \<mapsto> s1)"
    by (elim exE conjE)
  from ts2[unfolded sem_timestamp_re] obtain h2 m2 s2 where tt2: "timestamp_text (h2, m2, s2) t2"
    and g3: "g3 = (case h2 of None \<Rightarrow> g2 | Some h \<Rightarrow> g2(4 \<mapsto> h))(4 + 1 \<mapsto> m2, 4 + 2 \<mapsto> s2)"
    by (elim exE conjE)
  from sep[unfolded sem_separator_re] obtain w1 c w2 where sp: "sp = w1 @ [c] @ w2" "list_all is_space w1"
    "c \<in> set ''-|+;''" "list_all is_space w2" and g2: "g2 = g1"
    by (elim exE conjE)
  have str: "s = t1 @ w1 @ [c] @ w2 @ t2 @ r'"
    using s 0 1 2 3 w0 x4 sp(1) by simp
  have seg: "segment_text (h1, m1, s1) (h2, m2, s2) s"
    by (rule segment_textI[OF tt1 sp(2) sp(3) sp(4) tt2 x4(2) str])
  note G1 = timestamp_groups[OF g1] and G3 = timestamp_groups[OF g3]
  have "g' 1 = h1" "g' 2 = Some m1" "g' 3 = Some s1" "g' 4 = h2" "g' 5 = Some m2" "g' 6 = Some s2"
    using G1(1,2) G1(3)[unfolded w0, simplified] G1(4)[of 4, simplified]
          G3(1,2) G3(3)[unfolded g2] G3(4)[of 1, simplified] G3(4)[of 2, simplified]
          G3(4)[of 3, simplified]
    by (simp_all add: x4(3) g2 w0 eval_nat_numeral)
  then have "groups 6 g' = [h1, Some m1, Some s1, h2, Some m2, Some s2]"
    by (simp add: groups_6)
  with seg show ?thesis
    by (rule_tac x = h1 in exI, rule_tac x = m1 in exI, rule_tac x = s1 in exI,
        rule_tac x = h2 in exI, rule_tac x = m2 in exI, rule_tac x = s2 in exI, intro conjI)
qed

lemma pattern_complete:
  assumes "segment_text start end s"
  shows "rmatch pattern (0, s, Map.empty) \<noteq> []"
proof -
  obtain h1 m1 s1 where start: "start = (h1, m1, s1)" by (cases start)
  obtain h2 m2 s2 where "end": "end = (h2, m2, s2)" by (cases "end")
  from assms obtain t1 w1 sep w2 t2 nl where s: "s = t1 @ w1 @ [sep] @ w2 @ t2 @ nl"
    and tt1: "timestamp_text (h1, m1, s1) t1" and sp: "list_all is_space w1" "sep \<in> set ''-|+;''"
      "list_all is_space w2" and tt2: "timestamp_text (h2, m2, s2) t2"
    and nl: "nl = [] \<or> nl = [CHR 0x0A]"
    unfolding start "end" by (rule segment_textE)
  let ?g1 = "(case h1 of None \<Rightarrow> Map.empty | Some h \<Rightarrow> Map.empty(1 \<mapsto> h))(1 + 1 \<mapsto> m1, 1 + 2 \<mapsto> s1)"
  let ?g3 = "(case h2 of None \<Rightarrow> ?g1 | Some h \<Rightarrow> ?g1(4 \<mapsto> h))(4 + 1 \<mapsto> m2, 4 + 2 \<mapsto> s2)"
  have a: "sem Bol 0 [] r Map.empty Map.empty" for r by simp
  have b: "sem (timestamp_re 1) j t1 r Map.empty ?g1" for j r
    unfolding sem_timestamp_re using tt1 by blast
  have c: "sem separator_re j (w1 @ [sep] @ w2) r ?g1 ?g1" for j r
    unfolding sem_separator_re using sp by blast
  have d: "sem (timestamp_re 4) j t2 r ?g1 ?g3" for j r
    unfolding sem_timestamp_re using tt2 by blast
  have e: "sem Eol j [] nl ?g3 ?g3" for j using nl by auto
  have "sem pattern 0 ([] @ t1 @ (w1 @ [sep] @ w2) @ t2 @ []) nl Map.empty ?g3"
    unfolding pattern_def by (rule sem_SeqI[OF a] sem_SeqI[OF b] sem_SeqI[OF c] sem_SeqI[OF d] e)+
  then have "sem pattern 0 (t1 @ w1 @ [sep] @ w2 @ t2) nl Map.empty ?g3" by simp
  then have "(0 + length (t1 @ w1 @ [sep] @ w2 @ t2), nl, ?g3) \<in> set (rmatch pattern (0, s, Map.empty))"
    unfolding rmatch_sem s by (intro exI[of _ "t1 @ w1 @ [sep] @ w2 @ t2"]) simp
  then show ?thesis by auto
qed

lemma pattern_start: "i \<noteq> 0 \<Longrightarrow> rmatch pattern (i, r, g) = []"
  by (simp add: pattern_def)

lemma re_search_pattern:
  "re_search pattern s =
     (case rmatch pattern (0, s, Map.empty) of [] \<Rightarrow> None | (j, rest, g) # _ \<Rightarrow> Some g)"
proof -
  have "\<forall>xs \<in> set (map (\<lambda>i. rmatch pattern (i, drop i s, Map.empty)) [Suc 0 ..< Suc (length s)]). xs = []"
    by (auto intro!: pattern_start)
  then have "concat (map (\<lambda>i. rmatch pattern (i, drop i s, Map.empty)) [Suc 0 ..< Suc (length s)]) = []"
    by (simp only: concat_eq_Nil_conv)
  then have "concat (map (\<lambda>i. rmatch pattern (i, drop i s, Map.empty)) [0 ..< Suc (length s)])
      = rmatch pattern (0, s, Map.empty)"
    by (simp add: upt_conv_Cons del: upt_Suc)
  then show ?thesis by (simp only: re_search_def)
qed

lemma separator_head:
  "list_all is_space w1 \<Longrightarrow> sep \<in> set ''-|+;'' \<Longrightarrow> \<not> ts_char (hd (w1 @ sep # r))"
  by (cases w1) (simp_all add: sep_not_ts_char space_not_ts_char del: set_simps)

lemma timestamp_head_not_space:
  assumes "timestamp_text ts t"
  shows "\<not> is_space (hd (t @ r))"
proof -
  obtain hh mm ss where ts: "ts = (hh, mm, ss)" by (cases ts)
  note d = timestamp_text_digits[OF assms[unfolded ts]]
  from d(3,4) have "ts_char (hd (t @ r))" by simp
  then show ?thesis using space_not_ts_char by blast
qed

lemma segment_text_unique:
  assumes "segment_text a b s" "segment_text a' b' s"
  shows "a = a' \<and> b = b'"
proof -
  from assms(1) obtain t1 w1 sep w2 t2 nl where s: "s = t1 @ w1 @ [sep] @ w2 @ t2 @ nl"
    and tt1: "timestamp_text a t1" and sp: "list_all is_space w1" "sep \<in> set ''-|+;''"
      "list_all is_space w2" and tt2: "timestamp_text b t2"
    and nl: "nl = [] \<or> nl = [CHR 0x0A]"
    by (rule segment_textE)
  from assms(2) obtain t1' w1' sep' w2' t2' nl' where s': "s = t1' @ w1' @ [sep'] @ w2' @ t2' @ nl'"
    and tt1': "timestamp_text a' t1'" and sp': "list_all is_space w1'" "sep' \<in> set ''-|+;''"
      "list_all is_space w2'" and tt2': "timestamp_text b' t2'"
    and nl': "nl' = [] \<or> nl' = [CHR 0x0A]"
    by (rule segment_textE)
  have all_ts: "list_all ts_char t" if "timestamp_text x t" for x t
  proof -
    obtain hh mm ss where x: "x = (hh, mm, ss)" by (cases x)
    show ?thesis by (rule timestamp_text_digits(2)[OF that[unfolded x]])
  qed
  have k1: "takeWhile ts_char s = t1"
    unfolding s using separator_head[OF sp(1,2)] all_ts[OF tt1]
    by (intro takeWhile_append_stop) simp_all
  have k1b: "takeWhile ts_char s = t1'"
    unfolding s' using separator_head[OF sp'(1,2)] all_ts[OF tt1']
    by (intro takeWhile_append_stop) simp_all
  have t1: "t1 = t1'" using k1 k1b by simp
  then have r1: "w1 @ sep # (w2 @ t2 @ nl) = w1' @ sep' # (w2' @ t2' @ nl')"
    using s s' by simp
  have k2: "takeWhile is_space (w1 @ sep # (w2 @ t2 @ nl)) = w1"
    using sp(1) sep_not_space[OF sp(2)] by (intro takeWhile_append_stop) simp_all
  have k2b: "takeWhile is_space (w1' @ sep' # (w2' @ t2' @ nl')) = w1'"
    using sp'(1) sep_not_space[OF sp'(2)] by (intro takeWhile_append_stop) simp_all
  have w1: "w1 = w1'" using k2 k2b r1 by simp
  then have r2: "w2 @ (t2 @ nl) = w2' @ (t2' @ nl')" using r1 by simp
  have k3: "takeWhile is_space (w2 @ (t2 @ nl)) = w2"
    using sp(3) timestamp_head_not_space[OF tt2] by (intro takeWhile_append_stop) simp_all
  have k3b: "takeWhile is_space (w2' @ (t2' @ nl')) = w2'"
    using sp'(3) timestamp_head_not_space[OF tt2'] by (intro takeWhile_append_stop) simp_all
  have w2: "w2 = w2'" using k3 k3b r2 by simp
  then have r3: "t2 @ nl = t2' @ nl'" using r2 by simp
  have k4: "takeWhile ts_char (t2 @ nl) = t2"
    using all_ts[OF tt2] nl lf_not_ts_char by (intro takeWhile_append_stop) auto
  have k4b: "takeWhile ts_char (t2' @ nl') = t2'"
    using all_ts[OF tt2'] nl' lf_not_ts_char by (intro takeWhile_append_stop) auto
  have t2: "t2 = t2'" using k4 k4b r3 by simp
  obtain h1 m1 s1 where a: "a = (h1, m1, s1)" by (cases a)
  obtain h1' m1' s1' where a': "a' = (h1', m1', s1')" by (cases a')
  obtain h2 m2 s2 where b: "b = (h2, m2, s2)" by (cases b)
  obtain h2' m2' s2' where b': "b' = (h2', m2', s2')" by (cases b')
  from timestamp_text_unique[OF tt1[unfolded a] tt1'[unfolded a' t1[symmetric]]]
       timestamp_text_unique[OF tt2[unfolded b] tt2'[unfolded b' t2[symmetric]]]
  show ?thesis unfolding a a' b b' by simp
qed

lemma segment_seconds_no_match:
  assumes "\<And>start end. \<not> segment_text start end s"
  shows "segment_seconds (Str s) = Inl (ValueError (format_message s))"
proof -
  have "rmatch pattern (0, s, Map.empty) = []"
  proof (cases "rmatch pattern (0, s, Map.empty)")
    case Nil
    then show ?thesis .
  next
    case (Cons st sts)
    obtain j r' g' where "st = (j, r', g')" by (cases st)
    with Cons have "(j, r', g') \<in> set (rmatch pattern (0, s, Map.empty))" by simp
    from pattern_sound[OF this] assms show ?thesis by blast
  qed
  then show ?thesis
    by (simp add: segment_seconds_def re_search_pattern)
qed

lemma group_value:
  "(case x of Some t \<Rightarrow> if t \<noteq> [] then py_int t else 0 | None \<Rightarrow> 0) =
   (case x of None \<Rightarrow> 0 | Some h \<Rightarrow> py_int h)"
  by (cases x) (simp_all add: py_int_def)

lemma timestamp_seconds_total:
  "timestamp_seconds (Some s) (Some m) (Some h) = h * 3600 + m * 60 + s"
  by (simp add: timestamp_seconds_def)

lemma segment_seconds_match:
  assumes "segment_text start end s"
  shows "segment_seconds (Str s) =
     (if seconds_of end < seconds_of start then Inl (ValueError range_message)
      else Inr (seconds_of start, seconds_of end))"
proof -
  from pattern_complete[OF assms] obtain st sts where
    Cons: "rmatch pattern (0, s, Map.empty) = st # sts" by (cases "rmatch pattern (0, s, Map.empty)") auto
  obtain j r' g' where st: "st = (j, r', g')" by (cases st)
  with Cons have "(j, r', g') \<in> set (rmatch pattern (0, s, Map.empty))" by simp
  from pattern_sound[OF this] obtain h1 m1 s1 h2 m2 s2 where
    seg: "segment_text (h1, m1, s1) (h2, m2, s2) s" and
    grp: "groups 6 g' = [h1, Some m1, Some s1, h2, Some m2, Some s2]"
    by (elim exE conjE)
  from segment_text_unique[OF assms seg] have se: "start = (h1, m1, s1)" "end = (h2, m2, s2)"
    by simp_all
  have rs: "re_search pattern s = Some g'"
    by (simp add: re_search_pattern Cons st)
  show ?thesis
    unfolding segment_seconds_def pyval.case rs option.case grp
    by (simp add: group_value timestamp_seconds_total seconds_of_def se Let_def py_int_def)
qed

section \<open>Segments: \<^verbatim>\<open>segment_seconds\<close> and \<^verbatim>\<open>is_valid_segment\<close>\<close>

lemma messages_differ: "format_message s \<noteq> range_message"
  by (simp add: format_message_def range_message_def)

lemma segment_seconds_cases:
  "segment_seconds (Str s) = Inl (ValueError (format_message s)) \<or>
   segment_seconds (Str s) = Inl (ValueError range_message) \<or>
   (\<exists>r. segment_seconds (Str s) = Inr r)"
proof (cases "\<exists>start end. segment_text start end s")
  case True
  then obtain start "end" where "segment_text start end s" by blast
  from segment_seconds_match[OF this] show ?thesis by (cases "seconds_of end < seconds_of start") simp_all
next
  case False
  then have "segment_seconds (Str s) = Inl (ValueError (format_message s))"
    by (intro segment_seconds_no_match) blast
  then show ?thesis by simp
qed

lemma spec_timestamp_colon: "spec_timestamp t \<Longrightarrow> CHR '':'' \<in> set t"
  by (auto simp: spec_timestamp_def)

lemma spec_segment_colon: "spec_segment s \<Longrightarrow> CHR '':'' \<in> set s"
  unfolding spec_segment_def using spec_timestamp_colon by fastforce

subsection \<open>C2: the outcomes of \<^verbatim>\<open>segment_seconds\<close>\<close>

text \<open>
  C2, as the specification states it, does not hold: the pattern makes every colon
  optional, so \<^verbatim>\<open>0510-1020\<close>, which is not of the form \<^verbatim>\<open>[[HH]:]MM:SS <sep> [[HH]:]MM:SS\<close>,
  is accepted and gives the offsets 310 and 620.
\<close>

theorem segment_seconds_grammar_counterexample:
  "\<not> spec_segment ''0510-1020'' \<and> segment_seconds (Str ''0510-1020'') = Inr (310, 620)"
proof
  show "\<not> spec_segment ''0510-1020''" using spec_segment_colon[of "''0510-1020''"] by auto
  show "segment_seconds (Str ''0510-1020'') = Inr (310, 620)" by code_simp
qed

text \<open>
  C2 (amended): on any string, \<^verbatim>\<open>segment_seconds\<close> raises the format error exactly when the
  string is not a segment text (a timestamp, optional white space, a separator among
  \<^verbatim>\<open>-|+;\<close>, optional white space, a timestamp and at most one final line feed, where a
  timestamp is optional two-digit hours, minutes and seconds from 00 to 59, and each
  colon may be left out); it raises the range error exactly when the string is a segment
  text whose end is strictly before its start; otherwise it returns the start and end
  offsets in seconds. \<^verbatim>\<open>5:00-10:00\<close> gives the format error and \<^verbatim>\<open>05:00-00:10\<close> the range
  error. Both errors are \<^verbatim>\<open>ValueError\<close>, told apart by their message.
\<close>

theorem segment_seconds_outcomes:
  "(segment_seconds (Str s) = Inl (ValueError (format_message s))
      \<longleftrightarrow> \<not> (\<exists>start end. segment_text start end s))
   \<and> (segment_seconds (Str s) = Inl (ValueError range_message)
      \<longleftrightarrow> (\<exists>start end. segment_text start end s \<and> seconds_of end < seconds_of start))
   \<and> (\<forall>start end. segment_text start end s \<and> seconds_of start \<le> seconds_of end
      \<longrightarrow> segment_seconds (Str s) = Inr (seconds_of start, seconds_of end))
   \<and> segment_seconds (Str ''5:00-10:00'') = Inl (ValueError (format_message ''5:00-10:00''))
   \<and> segment_seconds (Str ''05:00-00:10'') = Inl (ValueError range_message)"
proof (intro conjI)
  show "segment_seconds (Str s) = Inl (ValueError (format_message s))
      \<longleftrightarrow> \<not> (\<exists>start end. segment_text start end s)"
  proof
    assume a: "segment_seconds (Str s) = Inl (ValueError (format_message s))"
    show "\<not> (\<exists>start end. segment_text start end s)"
    proof
      assume "\<exists>start end. segment_text start end s"
      then obtain start "end" where "segment_text start end s" by blast
      from segment_seconds_match[OF this] a messages_differ[of s] show False
        by (cases "seconds_of end < seconds_of start") simp_all
    qed
  next
    assume "\<not> (\<exists>start end. segment_text start end s)"
    then show "segment_seconds (Str s) = Inl (ValueError (format_message s))"
      by (intro segment_seconds_no_match) blast
  qed
  show "segment_seconds (Str s) = Inl (ValueError range_message)
      \<longleftrightarrow> (\<exists>start end. segment_text start end s \<and> seconds_of end < seconds_of start)"
  proof
    assume a: "segment_seconds (Str s) = Inl (ValueError range_message)"
    show "\<exists>start end. segment_text start end s \<and> seconds_of end < seconds_of start"
    proof (cases "\<exists>start end. segment_text start end s")
      case True
      then obtain start "end" where seg: "segment_text start end s" by blast
      from segment_seconds_match[OF seg] a have "seconds_of end < seconds_of start"
        by (cases "seconds_of end < seconds_of start") simp_all
      with seg show ?thesis by blast
    next
      case False
      then have "segment_seconds (Str s) = Inl (ValueError (format_message s))"
        by (intro segment_seconds_no_match) blast
      with a messages_differ[of s] show ?thesis by simp
    qed
  next
    assume "\<exists>start end. segment_text start end s \<and> seconds_of end < seconds_of start"
    then obtain start "end" where "segment_text start end s" "seconds_of end < seconds_of start"
      by blast
    then show "segment_seconds (Str s) = Inl (ValueError range_message)"
      by (simp add: segment_seconds_match)
  qed
  show "\<forall>start end. segment_text start end s \<and> seconds_of start \<le> seconds_of end
      \<longrightarrow> segment_seconds (Str s) = Inr (seconds_of start, seconds_of end)"
  proof (intro allI impI)
    fix start "end"
    assume a: "segment_text start end s \<and> seconds_of start \<le> seconds_of end"
    then have "segment_text start end s" "\<not> seconds_of end < seconds_of start" by auto
    from segment_seconds_match[OF this(1)] this(2)
    show "segment_seconds (Str s) = Inr (seconds_of start, seconds_of end)" by simp
  qed
  show "segment_seconds (Str ''5:00-10:00'') = Inl (ValueError (format_message ''5:00-10:00''))"
    by code_simp
  show "segment_seconds (Str ''05:00-00:10'') = Inl (ValueError range_message)"
    by code_simp
qed

theorem segment_seconds_outcomes_witness:
  "segment_text (Some ''01'', ''02'', ''03'') (Some ''04'', ''05'', ''06'') ''01:02:03 - 04:05:06''
   \<and> segment_seconds (Str ''01:02:03 - 04:05:06'') = Inr (3723, 14706)"
proof -
  have t1: "timestamp_text (Some ''01'', ''02'', ''03'') ''01:02:03''"
    by (rule timestamp_textI[where ?c1.0 = "'':''" and ?c2.0 = "'':''"])
       (simp_all add: two_digits_text_def sixty_text_def is_digit_def)
  have t2: "timestamp_text (Some ''04'', ''05'', ''06'') ''04:05:06''"
    by (rule timestamp_textI[where ?c1.0 = "'':''" and ?c2.0 = "'':''"])
       (simp_all add: two_digits_text_def sixty_text_def is_digit_def)
  have seg: "segment_text (Some ''01'', ''02'', ''03'') (Some ''04'', ''05'', ''06'')
               ''01:02:03 - 04:05:06''"
    by (rule segment_textI[OF t1 _ _ _ t2, where ?w1.0 = "'' ''" and sep = "CHR ''-''"
          and ?w2.0 = "'' ''" and nl = "[]"])
       (simp_all add: is_space_def)
  have sec: "seconds_of (Some ''01'', ''02'', ''03'') = 3723"
            "seconds_of (Some ''04'', ''05'', ''06'') = 14706"
    by (simp_all add: seconds_of_def py_int_def digit_val_def)
  from segment_seconds_outcomes[of "''01:02:03 - 04:05:06''"]
  have "segment_text (Some ''01'', ''02'', ''03'') (Some ''04'', ''05'', ''06'')
          ''01:02:03 - 04:05:06''
        \<and> seconds_of (Some ''01'', ''02'', ''03'') \<le> seconds_of (Some ''04'', ''05'', ''06'')
        \<longrightarrow> segment_seconds (Str ''01:02:03 - 04:05:06'')
            = Inr (seconds_of (Some ''01'', ''02'', ''03''), seconds_of (Some ''04'', ''05'', ''06''))"
    by blast
  with seg sec show ?thesis by simp
qed

subsection \<open>C8: \<^verbatim>\<open>is_valid_segment\<close>\<close>

text \<open>
  C8: \<^verbatim>\<open>is_valid_segment\<close> never raises on a string. It returns true for the empty string
  (which \<^verbatim>\<open>segment_seconds\<close> itself would reject, so no parse is attempted), and for every
  other string it returns true exactly when \<^verbatim>\<open>segment_seconds\<close> returns a result and false
  when it raises. \<^verbatim>\<open>not a segment\<close> is not valid.
\<close>

theorem is_valid_segment_spec:
  "is_valid_segment (Str s) = Inr (s = [] \<or> (\<exists>r. segment_seconds (Str s) = Inr r))
   \<and> is_valid_segment (Str []) = Inr True
   \<and> segment_seconds (Str []) = Inl (ValueError (format_message []))
   \<and> is_valid_segment (Str ''not a segment'') = Inr False"
proof (intro conjI)
  show "is_valid_segment (Str s) = Inr (s = [] \<or> (\<exists>r. segment_seconds (Str s) = Inr r))"
  proof (cases "s = []")
    case True
    then show ?thesis by (simp add: is_valid_segment_def)
  next
    case False
    from segment_seconds_cases[of s] show ?thesis
    proof (elim disjE exE)
      assume "segment_seconds (Str s) = Inl (ValueError (format_message s))"
      with False show ?thesis by (simp add: is_valid_segment_def)
    next
      assume "segment_seconds (Str s) = Inl (ValueError range_message)"
      with False show ?thesis by (simp add: is_valid_segment_def)
    next
      fix r assume "segment_seconds (Str s) = Inr r"
      with False show ?thesis by (simp add: is_valid_segment_def)
    qed
  qed
  show "is_valid_segment (Str []) = Inr True" by (simp add: is_valid_segment_def)
  show "segment_seconds (Str []) = Inl (ValueError (format_message []))" by code_simp
  show "is_valid_segment (Str ''not a segment'') = Inr False" by code_simp
qed

theorem is_valid_segment_spec_witness:
  "is_valid_segment (Str ''00:10-00:20'') = Inr True
   \<and> segment_seconds (Str ''00:10-00:20'') = Inr (10, 20)"
proof -
  have "segment_seconds (Str ''00:10-00:20'') = Inr (10, 20)" by code_simp
  with is_valid_segment_spec[of "''00:10-00:20''"] show ?thesis by simp
qed

subsection \<open>C6: parsing a rendered pair of offsets\<close>

lemma digit_char_props:
  assumes "d < 10"
  shows "is_digit (digit_char d)" "digit_val (digit_char d) = int d"
proof -
  from assms have "d = 0 \<or> d = 1 \<or> d = 2 \<or> d = 3 \<or> d = 4 \<or> d = 5 \<or> d = 6
    \<or> d = 7 \<or> d = 8 \<or> d = 9" by arith
  then have "is_digit (digit_char d) \<and> digit_val (digit_char d) = int d"
    by (elim disjE) (simp_all add: digit_char_def is_digit_def digit_val_def)
  then show "is_digit (digit_char d)" "digit_val (digit_char d) = int d" by simp_all
qed

lemma digit_char_lead:
  assumes "d < 6"
  shows "digit_char d \<in> set ''012345''"
proof -
  from assms have "d = 0 \<or> d = 1 \<or> d = 2 \<or> d = 3 \<or> d = 4 \<or> d = 5" by arith
  then show ?thesis by (elim disjE) (simp_all add: digit_char_def)
qed

lemma two_digits_props:
  assumes "n < 100"
  shows "two_digits_text (two_digits n)" "py_int (two_digits n) = int n"
proof -
  have a: "n div 10 < 10" "n mod 10 < 10" using assms by simp_all
  show "two_digits_text (two_digits n)"
    unfolding two_digits_text_def two_digits_def
    using digit_char_props(1)[OF a(1)] digit_char_props(1)[OF a(2)] by blast
  have "py_int (two_digits n) = 10 * int (n div 10) + int (n mod 10)"
    by (simp add: py_int_def two_digits_def digit_char_props(2)[OF a(1)] digit_char_props(2)[OF a(2)])
  also have "\<dots> = int n" by (simp add: zdiv_int zmod_int)
  finally show "py_int (two_digits n) = int n" .
qed

lemma two_digits_sixty:
  assumes "n < 60"
  shows "sixty_text (two_digits n)"
proof -
  have a: "n div 10 < 6" "n mod 10 < 10" using assms by simp_all
  show ?thesis
    unfolding sixty_text_def two_digits_def
    using digit_char_lead[OF a(1)] digit_char_props(1)[OF a(2)] by blast
qed

lemma render_hms_text:
  assumes "t < 360000"
  shows "timestamp_text (Some (two_digits (t div 3600)), two_digits (t div 60 mod 60),
           two_digits (t mod 60)) (render_hms t)"
proof -
  have h: "t div 3600 < 100" using assms by simp
  show ?thesis
    by (rule timestamp_textI[where ?c1.0 = "'':''" and ?c2.0 = "'':''"])
       (simp_all add: two_digits_props(1)[OF h] two_digits_sixty render_hms_def)
qed

lemma render_hms_seconds:
  assumes "t < 360000"
  shows "seconds_of (Some (two_digits (t div 3600)), two_digits (t div 60 mod 60),
           two_digits (t mod 60)) = int t"
proof -
  have h: "t div 3600 < 100" "t div 60 mod 60 < 100" "t mod 60 < 100" using assms by simp_all
  have 1: "t div 3600 = t div 60 div 60" by (simp add: div_mult2_eq[symmetric])
  have "(t div 60 div 60) * 3600 + (t div 60 mod 60) * 60 + t mod 60
      = ((t div 60 div 60) * 60 + t div 60 mod 60) * 60 + t mod 60"
    unfolding distrib_right mult.assoc by (simp only: mult_numeral_left_semiring_numeral
      numeral_times_numeral semiring_norm)
  also have "\<dots> = (t div 60) * 60 + t mod 60" by (simp only: div_mult_mod_eq)
  also have "\<dots> = t" by (simp only: div_mult_mod_eq)
  finally have eq: "(t div 3600) * 3600 + (t div 60 mod 60) * 60 + t mod 60 = t"
    unfolding 1 .
  have "int ((t div 3600) * 3600 + (t div 60 mod 60) * 60 + t mod 60) = int t"
    by (simp only: eq)
  then have "int (t div 3600) * 3600 + int (t div 60 mod 60) * 60 + int (t mod 60) = int t"
    by (simp only: of_nat_add of_nat_mult of_nat_numeral)
  then show ?thesis
    by (simp add: seconds_of_def two_digits_props(2)[OF h(1)] two_digits_props(2)[OF h(2)]
          two_digits_props(2)[OF h(3)])
qed

lemma render_segment_text:
  assumes "a < 360000" "b < 360000"
  shows "segment_text
           (Some (two_digits (a div 3600)), two_digits (a div 60 mod 60), two_digits (a mod 60))
           (Some (two_digits (b div 3600)), two_digits (b div 60 mod 60), two_digits (b mod 60))
           (render_segment a b)"
  by (rule segment_textI[OF render_hms_text[OF assms(1)] _ _ _ render_hms_text[OF assms(2)],
        where ?w1.0 = "[]" and sep = "CHR ''-''" and ?w2.0 = "[]" and nl = "[]"])
     (simp_all add: render_segment_def)

text \<open>
  C6: for every pair of second counts \<open>a \<le> b\<close>, both below 360000 (so that the hours fit
  in two digits), \<^verbatim>\<open>segment_seconds\<close> on the rendering \<^verbatim>\<open>HH:MM:SS-HH:MM:SS\<close> of the pair
  returns exactly the pair.
\<close>

theorem segment_seconds_render_roundtrip:
  assumes "a \<le> b" "b < 360000"
  shows "segment_seconds (Str (render_segment a b)) = Inr (int a, int b)"
proof -
  have a: "a < 360000" using assms by simp
  from segment_seconds_match[OF render_segment_text[OF a assms(2)]] assms(1)
  show ?thesis by (simp add: render_hms_seconds[OF a] render_hms_seconds[OF assms(2)])
qed

theorem segment_seconds_render_roundtrip_witness:
  "(3723::nat) \<le> 14706 \<and> (14706::nat) < 360000
   \<and> render_segment 3723 14706 = ''01:02:03-04:05:06''
   \<and> segment_seconds (Str (render_segment 3723 14706)) = Inr (3723, 14706)"
proof -
  have h: "(3723::nat) \<le> 14706" "(14706::nat) < 360000" by simp_all
  have r: "render_segment 3723 14706 = ''01:02:03-04:05:06''"
    by (simp add: render_segment_def render_hms_def two_digits_def digit_char_def)
  from segment_seconds_render_roundtrip[OF h] h r show ?thesis by simp
qed

section \<open>The collection: adding and finding records\<close>

subsection \<open>C5: what \<^verbatim>\<open>add_item\<close> builds\<close>

text \<open>
  C5, as the specification states it, does not hold: \<^verbatim>\<open>add_item\<close> fills in no default.
  A record added with no data has no \<^verbatim>\<open>filepath\<close> field, and reading the field raises
  \<^verbatim>\<open>KeyError\<close>.
\<close>

theorem add_item_no_default_counterexample:
  "getitem (snd (add_item [] Map.empty)) (KStr ''filepath'') = Inl (KeyError (KStr ''filepath''))"
  by (simp add: add_item_def getitem_def Let_def)

text \<open>
  C5 (amended): for every collection and every set of initial fields, \<^verbatim>\<open>add_item\<close> builds a
  record that holds exactly the fields given, appends it to the end of the collection
  and returns it. Reading a field of the returned record gives the value given for it,
  and raises \<^verbatim>\<open>KeyError\<close> for a field that was left out.
\<close>

theorem add_item_appends_given_fields:
  "fst (add_item self data) = self @ [Some (snd (add_item self data))]
   \<and> dom (snd (add_item self data)) = dom data
   \<and> getitem (snd (add_item self data)) key =
       (case data key of None \<Rightarrow> Inl (KeyError key) | Some v \<Rightarrow> Inr v)"
  by (simp add: add_item_def getitem_def Let_def)

subsection \<open>C7: what \<^verbatim>\<open>get_item\<close> finds\<close>

text \<open>
  C7, as the specification states it, does not hold: a record that is not empty and
  has no \<^verbatim>\<open>filepath\<close> field makes the search raise \<^verbatim>\<open>KeyError\<close> instead of returning
  \<^verbatim>\<open>None\<close>.
\<close>

theorem get_item_raises_counterexample:
  "get_item [Some [KStr ''title'' \<mapsto> Str ''T'']] (KStr ''filepath'') (Str ''a.mp3'')
     = Inl (KeyError (KStr ''filepath''))"
  by (simp add: getitem_def)

lemma get_item_first_match:
  "(\<And>d. Some d \<in> set self \<Longrightarrow> d \<noteq> Map.empty \<Longrightarrow> d key \<noteq> None) \<Longrightarrow>
   get_item self key value = Inr (first_match self key value)"
proof (induction self)
  case Nil
  show ?case by (simp add: first_match_def)
next
  case (Cons item self)
  have ih: "get_item self key value = Inr (first_match self key value)"
    using Cons by simp
  show ?case
  proof (cases item)
    case None
    with ih show ?thesis by (simp add: first_match_def)
  next
    case (Some d)
    show ?thesis
    proof (cases "d = Map.empty")
      case True
      with Some ih show ?thesis by (simp add: first_match_def)
    next
      case False
      with Some Cons.prems[of d] obtain v where v: "d key = Some v" by auto
      with Some False ih show ?thesis
        by (simp add: first_match_def getitem_def)
    qed
  qed
qed

text \<open>
  C7 (amended): for every collection in which every record that is not empty has the
  field \<open>key\<close>, and every value, \<^verbatim>\<open>get_item\<close> returns the first record in insertion order
  whose field equals the value, passing over \<^verbatim>\<open>None\<close> slots and empty records; when no
  record matches it returns \<^verbatim>\<open>None\<close>. It does not raise.
\<close>

theorem get_item_returns_first_match:
  assumes "\<forall>d. Some d \<in> set self \<longrightarrow> d \<noteq> Map.empty \<longrightarrow> d key \<noteq> None"
  shows "get_item self key value = Inr (first_match self key value)"
  using assms by (intro get_item_first_match) blast

theorem get_item_returns_first_match_witness:
  "get_item [None, Some Map.empty,
             Some [KStr ''filepath'' \<mapsto> Str ''b.mp3'', KStr ''title'' \<mapsto> Str ''other''],
             Some [KStr ''filepath'' \<mapsto> Str ''a.mp3'', KStr ''title'' \<mapsto> Str ''first''],
             Some [KStr ''filepath'' \<mapsto> Str ''a.mp3'', KStr ''title'' \<mapsto> Str ''second'']]
     (KStr ''filepath'') (Str ''a.mp3'')
   = Inr (Some [KStr ''filepath'' \<mapsto> Str ''a.mp3'', KStr ''title'' \<mapsto> Str ''first''])"
proof -
  let ?self = "[None, Some Map.empty,
             Some [KStr ''filepath'' \<mapsto> Str ''b.mp3'', KStr ''title'' \<mapsto> Str ''other''],
             Some [KStr ''filepath'' \<mapsto> Str ''a.mp3'', KStr ''title'' \<mapsto> Str ''first''],
             Some [KStr ''filepath'' \<mapsto> Str ''a.mp3'', KStr ''title'' \<mapsto> Str ''second'']]"
  have h: "\<forall>d. Some d \<in> set ?self \<longrightarrow> d \<noteq> Map.empty \<longrightarrow> d (KStr ''filepath'') \<noteq> None"
    by auto
  show ?thesis
    using get_item_returns_first_match [OF h, of "Str ''a.mp3''"]
    by (simp add: first_match_def)
qed

section \<open>C9: the player is terminated and its sink closed\<close>

lemma count_list_others: "count_list (map Other names) Terminate = 0 \<and> count_list (map Other names) Close_devnull = 0"
  by (induction names) simp_all

text \<open>
  C9: once \<^verbatim>\<open>__enter__\<close> has started the child (the player is active), the \<^verbatim>\<open>with\<close> block
  ends with \<^verbatim>\<open>terminate()\<close> on the child followed by \<^verbatim>\<open>close()\<close> on the sink, each called
  exactly once, whether the body returned (\<open>r = None\<close>) or raised (\<open>r = Some e\<close>), and the
  outcome of the body is passed on. The body is any sequence of other calls.
\<close>

theorem with_VLCPlayer_terminates_and_closes:
  assumes "vlc_starts sys"
  shows "fst (with_VLCPlayer path (\<lambda>s. (r, s\<lparr>calls := calls s @ map Other names\<rparr>)) sys) = r
    \<and> calls (snd (with_VLCPlayer path (\<lambda>s. (r, s\<lparr>calls := calls s @ map Other names\<rparr>)) sys))
        = calls sys @ [Open_devnull, Popen [''vlc'', path]] @ map Other names @ [Terminate, Close_devnull]
    \<and> count_list (calls (snd (with_VLCPlayer path (\<lambda>s. (r, s\<lparr>calls := calls s @ map Other names\<rparr>)) sys))) Terminate
        = count_list (calls sys) Terminate + 1
    \<and> count_list (calls (snd (with_VLCPlayer path (\<lambda>s. (r, s\<lparr>calls := calls s @ map Other names\<rparr>)) sys))) Close_devnull
        = count_list (calls sys) Close_devnull + 1"
  using assms count_list_others[of names]
  by (simp add: with_VLCPlayer_def VLCPlayer_enter_def VLCPlayer_exit_def do_call_def Let_def)

theorem with_VLCPlayer_terminates_and_closes_witness:
  "vlc_starts \<lparr>calls = [], vlc_starts = True\<rparr>
   \<and> with_VLCPlayer ''a.mp3'' (\<lambda>s. (Some (ValueError ''stop''), s\<lparr>calls := calls s @ map Other [''ask'']\<rparr>))
         \<lparr>calls = [], vlc_starts = True\<rparr>
       = (Some (ValueError ''stop''),
          \<lparr>calls = [Open_devnull, Popen [''vlc'', ''a.mp3''], Other ''ask'', Terminate, Close_devnull],
           vlc_starts = True\<rparr>)"
proof -
  have h: "vlc_starts \<lparr>calls = [], vlc_starts = True\<rparr>" by simp
  from with_VLCPlayer_terminates_and_closes[OF h, of "''a.mp3''" "Some (ValueError ''stop'')" "[''ask'']"]
  show ?thesis
    by (simp add: with_VLCPlayer_def VLCPlayer_enter_def VLCPlayer_exit_def do_call_def Let_def)
qed

section \<open>Writing the collection: C3 and C10\<close>

lemma is_textE: "is_text v \<Longrightarrow> (\<And>s. v = Some (Str s) \<Longrightarrow> P) \<Longrightarrow> P"
  by (cases v rule: is_text.cases) simp_all

lemma is_listE: "is_list v \<Longrightarrow> (\<And>xs. v = Some (Lst xs) \<Longrightarrow> P) \<Longrightarrow> P"
  by (cases v rule: is_list.cases) simp_all

lemma row_of_complete:
  assumes "complete_record d"
  shows "\<exists>row vs. row_of d = Inr row \<and> dict_to_list KEYS row = Inr vs \<and>
           cells_text vs = Some (record_row d)"
proof -
  from assms obtain fp en ti sp sg where
    d: "d (KStr ''filepath'') = Some (Str fp)" "d (KStr ''event_name'') = Some (Str en)"
       "d (KStr ''title'') = Some (Str ti)" "d (KStr ''speakers'') = Some (Lst sp)"
       "d (KStr ''segments'') = Some (Lst sg)"
    unfolding complete_record_def by (elim conjE is_textE is_listE)
  show ?thesis
    by (cases "sp = []"; cases "sg = []")
       (simp_all add: row_of_def getitem_def and_then_def Let_def d dict_to_list_def KEYS_def
          record_row_def)
qed

lemma build_rows_complete:
  assumes "\<And>d. Some d \<in> set self \<Longrightarrow> d \<noteq> Map.empty \<Longrightarrow> complete_record d"
  shows "\<exists>rows. build_rows self = Inr rows \<and>
           writerows KEYS rows = Done (concat (map (\<lambda>d. writerow (record_row d)) (records self)))"
  using assms
proof (induction self)
  case Nil
  show ?case by simp
next
  case (Cons item self)
  from Cons obtain rows where rows: "build_rows self = Inr rows"
    "writerows KEYS rows = Done (concat (map (\<lambda>d. writerow (record_row d)) (records self)))"
    by auto
  show ?case
  proof (cases item)
    case None
    with rows show ?thesis by simp
  next
    case (Some d)
    show ?thesis
    proof (cases "d = Map.empty")
      case True
      with Some rows show ?thesis by simp
    next
      case False
      with Some Cons.prems[of d] have "complete_record d" by simp
      from row_of_complete[OF this] obtain row vs where
        "row_of d = Inr row" "dict_to_list KEYS row = Inr vs" "cells_text vs = Some (record_row d)"
        by blast
      with Some False rows show ?thesis by (simp add: and_then_def)
    qed
  qed
qed

lemma build_rows_length:
  "build_rows self = Inr rows \<Longrightarrow> length rows = length (records self)"
proof (induction self arbitrary: rows)
  case Nil
  then show ?case by simp
next
  case (Cons item self)
  show ?case
  proof (cases item)
    case None
    with Cons show ?thesis by simp
  next
    case (Some d)
    show ?thesis
    proof (cases "d = Map.empty")
      case True
      with Some Cons show ?thesis by simp
    next
      case False
      with Some Cons.prems obtain row rows' where
        "build_rows self = Inr rows'" "rows = row # rows'"
        by (auto simp: and_then_def split: sum.splits)
      with Cons.IH[of rows'] Some False show ?thesis by simp
    qed
  qed
qed

lemma writerows_cells:
  "writerows fieldnames rows = Done out \<Longrightarrow>
   \<exists>cells. out = concat (map writerow cells) \<and> length cells = length rows"
proof (induction rows arbitrary: out)
  case Nil
  then show ?case by simp
next
  case (Cons row rows)
  from Cons.prems obtain vs cs body where
    "writerows fieldnames rows = Done body" "out = writerow cs @ body"
    by (auto split: sum.splits option.splits outcome.splits)
  with Cons.IH[of body] obtain cells where
    "body = concat (map writerow cells)" "length cells = length rows" by blast
  with \<open>out = writerow cs @ body\<close> show ?case
    by (intro exI[of _ "cs # cells"]) simp
qed

lemma records_filter: "length (records self) = length (filter slot_truthy self)"
proof (induction self)
  case Nil
  show ?case by simp
next
  case (Cons item self)
  then show ?case by (cases item) (simp_all add: slot_truthy_def)
qed

lemma example_record_complete: "complete_record example_record \<and> example_record \<noteq> Map.empty"
proof
  show "complete_record example_record"
    by (simp add: complete_record_def example_record_def)
  have "example_record (KStr ''filepath'') \<noteq> None" by (simp add: example_record_def)
  then show "example_record \<noteq> Map.empty" by metis
qed

lemma example_record_row:
  "writerow (record_row example_record)
     = ''\"t.mp3\",\"E\",\"T\",\"A;B\",\"00:10-00:20\"'' @ [CHR 0x0D, CHR 0x0A]"
  by (simp add: record_row_def example_record_def writerow_def quote_field_def line_terminator_def)

lemma header_row:
  "writeheader KEYS
     = ''\"filepath\",\"event_name\",\"title\",\"speakers\",\"segments\"'' @ [CHR 0x0D, CHR 0x0A]"
  by (simp add: writeheader_def KEYS_def writerow_def quote_field_def line_terminator_def)

lemma write_to_csv_complete:
  assumes "\<And>d. Some d \<in> set self \<Longrightarrow> d \<noteq> Map.empty \<Longrightarrow> complete_record d"
    and "fs output_csv \<noteq> Unopenable"
  shows "write_to_csv self fs output_csv =
     Done (fs(output_csv := File (writeheader KEYS @
             concat (map (\<lambda>d. writerow (record_row d)) (records self)))))"
proof -
  from build_rows_complete[OF assms(1)] obtain rows where
    "build_rows self = Inr rows"
    "writerows KEYS rows = Done (concat (map (\<lambda>d. writerow (record_row d)) (records self)))"
    by blast
  with assms(2) show ?thesis by (simp add: write_to_csv_def)
qed

text \<open>
  C3, as the specification states it, does not hold: there is not one row for every
  record. A collection holding one record with no fields is written as the header row
  alone.
\<close>

theorem write_to_csv_empty_record_counterexample:
  "length [Some (Map.empty :: Metadata)] = 1
   \<and> write_to_csv [Some Map.empty] (\<lambda>p. Absent) ''out.csv''
       = Done ((\<lambda>p. Absent)(''out.csv'' := File (writeheader KEYS)))"
  by (simp add: write_to_csv_def)

text \<open>
  C3 (amended): for every collection whose records with at least one field are complete
  (three string fields, two lists of strings), and every path that can be opened,
  \<^verbatim>\<open>write_to_csv\<close> writes the header row with the fields in the order filepath, event_name,
  title, speakers, segments, then one row for each record that has at least one field,
  in insertion order (\<^verbatim>\<open>None\<close> slots and records with no fields get no row). Every cell is
  written between double quotes whatever it holds, the cells separated by commas and the
  row ended by CR LF; speakers and segments are each joined with \<^verbatim>\<open>;\<close> into one cell, and an
  empty list gives the empty cell \<^verbatim>\<open>""\<close>. The record of the scenario is written as the row
  \<^verbatim>\<open>"t.mp3","E","T","A;B","00:10-00:20"\<close>.
\<close>

theorem write_to_csv_rows:
  assumes "\<forall>d. Some d \<in> set self \<longrightarrow> d \<noteq> Map.empty \<longrightarrow> complete_record d"
    and "fs output_csv \<noteq> Unopenable"
  shows "write_to_csv self fs output_csv =
       Done (fs(output_csv := File (writeheader KEYS @
               concat (map (\<lambda>d. writerow (record_row d)) (records self)))))
     \<and> writeheader KEYS
         = ''\"filepath\",\"event_name\",\"title\",\"speakers\",\"segments\"'' @ [CHR 0x0D, CHR 0x0A]
     \<and> writerow cells = join '','' (map quote_field cells) @ [CHR 0x0D, CHR 0x0A]
     \<and> quote_field [] = ''\"\"''
     \<and> write_to_csv (fst (add_item [] example_record)) (\<lambda>p. Absent) ''out.csv''
         = Done ((\<lambda>p. Absent)(''out.csv'' := File (writeheader KEYS @
             ''\"t.mp3\",\"E\",\"T\",\"A;B\",\"00:10-00:20\"'' @ [CHR 0x0D, CHR 0x0A])))"
proof (intro conjI)
  show "write_to_csv self fs output_csv =
       Done (fs(output_csv := File (writeheader KEYS @
               concat (map (\<lambda>d. writerow (record_row d)) (records self)))))"
    using assms by (intro write_to_csv_complete) blast+
  show "writeheader KEYS
         = ''\"filepath\",\"event_name\",\"title\",\"speakers\",\"segments\"'' @ [CHR 0x0D, CHR 0x0A]"
    by (rule header_row)
  show "writerow cells = join '','' (map quote_field cells) @ [CHR 0x0D, CHR 0x0A]"
    by (simp add: writerow_def line_terminator_def)
  show "quote_field [] = ''\"\"''" by (simp add: quote_field_def)
  have "write_to_csv [Some example_record] (\<lambda>p. Absent) ''out.csv''
      = Done ((\<lambda>p. Absent)(''out.csv'' := File (writeheader KEYS @
             concat (map (\<lambda>d. writerow (record_row d)) (records [Some example_record])))))"
    using example_record_complete by (intro write_to_csv_complete) auto
  then show "write_to_csv (fst (add_item [] example_record)) (\<lambda>p. Absent) ''out.csv''
         = Done ((\<lambda>p. Absent)(''out.csv'' := File (writeheader KEYS @
             ''\"t.mp3\",\"E\",\"T\",\"A;B\",\"00:10-00:20\"'' @ [CHR 0x0D, CHR 0x0A])))"
    using example_record_complete
    by (simp add: add_item_def Let_def example_record_row del: append_Cons)
qed

theorem write_to_csv_rows_witness:
  "write_to_csv [Some example_record, None, Some Map.empty,
                 Some (example_record(KStr ''speakers'' \<mapsto> Lst []))] (\<lambda>p. Absent) ''out.csv''
     = Done ((\<lambda>p. Absent)(''out.csv'' := File (
         ''\"filepath\",\"event_name\",\"title\",\"speakers\",\"segments\"'' @ [CHR 0x0D, CHR 0x0A] @
         ''\"t.mp3\",\"E\",\"T\",\"A;B\",\"00:10-00:20\"'' @ [CHR 0x0D, CHR 0x0A] @
         ''\"t.mp3\",\"E\",\"T\",\"\",\"00:10-00:20\"'' @ [CHR 0x0D, CHR 0x0A])))"
proof -
  let ?other = "example_record(KStr ''speakers'' \<mapsto> Lst [])"
  let ?self = "[Some example_record, None, Some Map.empty, Some ?other]"
  have c: "complete_record ?other" "?other \<noteq> Map.empty"
    by (simp_all add: complete_record_def example_record_def)
  have h1: "\<forall>d. Some d \<in> set ?self \<longrightarrow> d \<noteq> Map.empty \<longrightarrow> complete_record d"
    using example_record_complete c by auto
  have h2: "(\<lambda>p. Absent) ''out.csv'' \<noteq> Unopenable" by simp
  have r: "writerow (record_row ?other)
      = ''\"t.mp3\",\"E\",\"T\",\"\",\"00:10-00:20\"'' @ [CHR 0x0D, CHR 0x0A]"
    by (simp add: record_row_def example_record_def writerow_def quote_field_def line_terminator_def)
  from write_to_csv_rows[OF h1 h2] show ?thesis
    using example_record_complete c(2)
    by (simp add: example_record_row r del: append_Cons fun_upd_apply)
qed

text \<open>
  C10: whenever \<^verbatim>\<open>write_to_csv\<close> succeeds, the file is the header row followed by exactly
  one row for each slot that is true (a record with at least one field); a record with
  no fields, such as the one \<^verbatim>\<open>add_item\<close> makes from no data, gets no row, so there can be
  fewer rows than records.
\<close>

theorem write_to_csv_skips_empty_records:
  "(write_to_csv self fs output_csv = Done fs' \<longrightarrow>
      (\<exists>cells. fs' output_csv = File (writeheader KEYS @ concat (map writerow cells)) \<and>
         length cells = length (filter slot_truthy self)))
   \<and> write_to_csv (fst (add_item [] Map.empty)) (\<lambda>p. Absent) ''out.csv''
       = Done ((\<lambda>p. Absent)(''out.csv'' := File (writeheader KEYS)))
   \<and> length (filter slot_truthy (fst (add_item [] Map.empty))) < length (fst (add_item [] Map.empty))"
proof (intro conjI impI)
  assume w: "write_to_csv self fs output_csv = Done fs'"
  then obtain rows body where rows: "build_rows self = Inr rows"
    and body: "writerows KEYS rows = Done body"
    and fs': "fs' = fs(output_csv := File (writeheader KEYS @ body))"
    by (auto simp: write_to_csv_def split: sum.splits if_splits outcome.splits)
  from writerows_cells[OF body] obtain cells where
    "body = concat (map writerow cells)" "length cells = length rows" by blast
  with build_rows_length[OF rows] records_filter[of self] fs'
  show "\<exists>cells. fs' output_csv = File (writeheader KEYS @ concat (map writerow cells)) \<and>
         length cells = length (filter slot_truthy self)"
    by (intro exI[of _ cells]) simp
next
  show "write_to_csv (fst (add_item [] Map.empty)) (\<lambda>p. Absent) ''out.csv''
       = Done ((\<lambda>p. Absent)(''out.csv'' := File (writeheader KEYS)))"
    by (simp add: write_to_csv_def add_item_def Let_def)
  show "length (filter slot_truthy (fst (add_item [] Map.empty))) < length (fst (add_item [] Map.empty))"
    by (simp add: add_item_def Let_def slot_truthy_def)
qed

theorem write_to_csv_skips_empty_records_witness:
  "write_to_csv [Some example_record, Some Map.empty, None] (\<lambda>p. Absent) ''out.csv''
     = Done ((\<lambda>p. Absent)(''out.csv'' := File (writeheader KEYS @ writerow (record_row example_record))))
   \<and> (\<exists>cells. writeheader KEYS @ writerow (record_row example_record)
                 = writeheader KEYS @ concat (map writerow cells) \<and> length cells = 1)
   \<and> length [Some example_record, Some Map.empty, None] = 3"
proof -
  let ?self = "[Some example_record, Some Map.empty, None]"
  let ?fs' = "(\<lambda>p. Absent)(''out.csv'' := File (writeheader KEYS @ writerow (record_row example_record)))"
  have w: "write_to_csv ?self (\<lambda>p. Absent) ''out.csv'' = Done ?fs'"
    using write_to_csv_complete[of ?self "\<lambda>p. Absent" "''out.csv''"] example_record_complete
    by auto
  have n: "length (filter slot_truthy ?self) = 1"
    using example_record_complete by (simp add: slot_truthy_def)
  from write_to_csv_skips_empty_records[of ?self "\<lambda>p. Absent" "''out.csv''" ?fs'] w n
  show ?thesis by simp
qed

section \<open>The reader on files the writer wrote\<close>

lemma un_keep: "c \<noteq> CHR 0x0D \<Longrightarrow> universal_newlines (c # xs) = c # universal_newlines xs"
  by (cases xs) simp_all

lemma un_crlf: "universal_newlines (CHR 0x0D # CHR 0x0A # xs) = CHR 0x0A # universal_newlines xs"
  by simp

lemma un_cr: "xs = [] \<or> hd xs \<noteq> CHR 0x0A \<Longrightarrow>
    universal_newlines (CHR 0x0D # xs) = CHR 0x0A # universal_newlines xs"
  by (cases xs) simp_all

lemma escape_quotes_simps:
  "escape_quotes [] = []"
  "escape_quotes (CHR 0x22 # s) = CHR 0x22 # CHR 0x22 # escape_quotes s"
  "c \<noteq> CHR 0x22 \<Longrightarrow> escape_quotes (c # s) = c # escape_quotes s"
  by (simp_all add: escape_quotes_def)

lemma quote_field_escape: "quote_field s = CHR 0x22 # escape_quotes s @ [CHR 0x22]"
  by (simp add: quote_field_def escape_quotes_def)

lemma un_escape:
  "universal_newlines (escape_quotes s @ CHR 0x22 # rest)
     = escape_quotes (universal_newlines s) @ CHR 0x22 # universal_newlines rest"
proof (induction s rule: universal_newlines.induct)
  case 1
  show ?case by (simp add: escape_quotes_simps un_keep)
next
  case (2 c)
  show ?case
  proof (cases "c = CHR 0x0D")
    case True
    then show ?thesis by (simp add: escape_quotes_simps un_keep un_cr)
  next
    case False
    then show ?thesis
      by (cases "c = CHR 0x22") (simp_all add: escape_quotes_simps un_keep)
  qed
next
  case (3 c d cs)
  show ?case
  proof (cases "c = CHR 0x0D")
    case cr: True
    show ?thesis
    proof (cases "d = CHR 0x0A")
      case True
      with cr 3 show ?thesis by (simp add: escape_quotes_simps un_crlf del: universal_newlines.simps)
    next
      case False
      have hd: "hd (escape_quotes (d # cs) @ CHR 0x22 # rest) \<noteq> CHR 0x0A"
        using False by (cases "d = CHR 0x22") (simp_all add: escape_quotes_simps)
      have "universal_newlines (escape_quotes (c # d # cs) @ CHR 0x22 # rest)
          = CHR 0x0A # universal_newlines (escape_quotes (d # cs) @ CHR 0x22 # rest)"
        using cr hd by (simp add: escape_quotes_simps(3) un_cr)
      also have "\<dots> = CHR 0x0A # escape_quotes (universal_newlines (d # cs)) @ CHR 0x22 # universal_newlines rest"
        using 3(2)[OF _ cr] cr False by simp
      also have "\<dots> = escape_quotes (universal_newlines (c # d # cs)) @ CHR 0x22 # universal_newlines rest"
        using cr False by (simp add: escape_quotes_simps)
      finally show ?thesis .
    qed
  next
    case False
    have ih: "universal_newlines (escape_quotes (d # cs) @ CHR 0x22 # rest)
        = escape_quotes (universal_newlines (d # cs)) @ CHR 0x22 # universal_newlines rest"
      using 3(3) False by simp
    show ?thesis
    proof (cases "c = CHR 0x22")
      case True
      then show ?thesis using ih
        by (simp add: escape_quotes_simps un_keep del: universal_newlines.simps)
    next
      case nq: False
      then show ?thesis using ih False
        by (simp add: escape_quotes_simps un_keep del: universal_newlines.simps)
    qed
  qed
qed

lemma un_quote_field:
  "universal_newlines (quote_field s @ rest)
     = quote_field (universal_newlines s) @ universal_newlines rest"
  by (simp add: quote_field_escape un_keep un_escape del: universal_newlines.simps)

lemma join_comma_Cons:
  "join '','' (x # xs) = x @ concat (map (\<lambda>y. CHR '','' # y) xs)"
  by (induction xs arbitrary: x) simp_all

lemma un_cells_tail:
  "universal_newlines (concat (map (\<lambda>y. CHR '','' # y) (map quote_field cells)) @ CHR 0x0D # CHR 0x0A # rest)
     = concat (map (\<lambda>y. CHR '','' # y) (map quote_field (map universal_newlines cells)))
         @ CHR 0x0A # universal_newlines rest"
proof (induction cells)
  case Nil
  show ?case by (simp add: un_crlf del: universal_newlines.simps)
next
  case (Cons c cells)
  then show ?case
    by (simp add: un_keep un_quote_field del: universal_newlines.simps)
qed

lemma un_writerow:
  assumes "cells \<noteq> []"
  shows "universal_newlines (writerow cells @ rest)
     = row_text (map universal_newlines cells) @ universal_newlines rest"
proof -
  from assms obtain c cs where cells: "cells = c # cs" by (cases cells) auto
  show ?thesis
    unfolding cells writerow_def row_text_def line_terminator_def list.map join_comma_Cons
    by (simp add: un_quote_field un_cells_tail[simplified] del: universal_newlines.simps)
qed

lemma readlines_Nil_iff: "readlines s = [] \<longleftrightarrow> s = []"
  by (cases s) (simp_all split: list.splits)

lemma reader_rows_char:
  "reader_rows self ((c # l) # ls) =
     (case parse_process_char self (Some c) of
        Inl e \<Rightarrow> ([], Some e)
      | Inr self' \<Rightarrow> reader_rows self' (l # ls))"
  by (simp add: process_line_def and_then_def split: sum.splits)

lemma reader_rows_eol:
  "reader_rows self ([] # ls) =
     (case parse_process_char self None of
        Inl e \<Rightarrow> ([], Some e)
      | Inr self' \<Rightarrow>
          if state self' = START_RECORD
          then (case reader_rows parse_reset ls of (rows, e) \<Rightarrow> (row_fields self' # rows, e))
          else reader_rows self' ls)"
  by (simp add: process_line_def and_then_def split: sum.splits)

lemma cont_plain:
  assumes "c \<noteq> CHR 0x0A"
  shows "cont self (c # cs) =
     (case parse_process_char self (Some c) of
        Inl e \<Rightarrow> ([], Some e)
      | Inr self' \<Rightarrow> cont self' cs)"
proof (cases "readlines cs")
  case Nil
  then have "cs = []" by (simp add: readlines_Nil_iff)
  with assms show ?thesis
    by (simp add: cont_def reader_rows_char del: reader_rows.simps split: sum.splits)
next
  case (Cons l ls)
  then have "cs \<noteq> []" using readlines_Nil_iff[of cs] by auto
  with assms Cons show ?thesis
    by (simp add: cont_def reader_rows_char del: reader_rows.simps split: sum.splits)
qed

lemma cont_newline:
  "cont self (CHR 0x0A # cs) =
     (case parse_process_char self (Some (CHR 0x0A)) of
        Inl e \<Rightarrow> ([], Some e)
      | Inr self' \<Rightarrow>
          (case parse_process_char self' None of
             Inl e \<Rightarrow> ([], Some e)
           | Inr self'' \<Rightarrow>
               if state self'' = START_RECORD
               then (case reader_rows parse_reset (readlines cs) of
                       (rows, e) \<Rightarrow> (row_fields self'' # rows, e))
               else reader_rows self'' (readlines cs)))"
  by (simp add: cont_def reader_rows_char reader_rows_eol del: reader_rows.simps split: sum.splits)

lemma cont_in_quoted:
  "reader_rows \<lparr>state = IN_QUOTED_FIELD, row_fields = fs, field = acc\<rparr> (readlines cs)
     = cont \<lparr>state = IN_QUOTED_FIELD, row_fields = fs, field = acc\<rparr> cs"
  by (simp add: cont_def reader_rows_eol parse_process_char_def del: reader_rows.simps)

lemmas ppc_defs = parse_process_char_def start_field_def parse_add_char_def parse_save_field_def
  is_crlf_def and_then_def

lemma quoted_content:
  assumes "length acc + length s \<le> field_limit"
  shows "cont \<lparr>state = IN_QUOTED_FIELD, row_fields = fs, field = acc\<rparr>
           (escape_quotes s @ CHR 0x22 # rest)
       = cont \<lparr>state = QUOTE_IN_QUOTED_FIELD, row_fields = fs, field = acc @ s\<rparr> rest"
  using assms
proof (induction s arbitrary: acc)
  case Nil
  show ?case by (simp add: escape_quotes_simps cont_plain ppc_defs)
next
  case (Cons c s)
  have lim: "\<not> field_limit \<le> length acc" using Cons.prems by simp
  have ih: "cont \<lparr>state = IN_QUOTED_FIELD, row_fields = fs, field = acc @ [c]\<rparr>
           (escape_quotes s @ CHR 0x22 # rest)
       = cont \<lparr>state = QUOTE_IN_QUOTED_FIELD, row_fields = fs, field = acc @ c # s\<rparr> rest"
    using Cons.IH[of "acc @ [c]"] Cons.prems by simp
  show ?case
  proof (cases "c = CHR 0x22")
    case True
    then show ?thesis using ih lim
      by (simp add: escape_quotes_simps cont_plain ppc_defs)
  next
    case nq: False
    show ?thesis
    proof (cases "c = CHR 0x0A")
      case True
      then show ?thesis using ih lim
        by (simp add: escape_quotes_simps cont_newline ppc_defs cont_in_quoted
              del: reader_rows.simps)
    next
      case False
      then show ?thesis using ih lim nq
        by (simp add: escape_quotes_simps cont_plain ppc_defs)
    qed
  qed
qed

lemma cells_tail:
  assumes "list_all (\<lambda>x. length x \<le> field_limit) cells"
  shows "cont \<lparr>state = QUOTE_IN_QUOTED_FIELD, row_fields = fs, field = c\<rparr>
           (concat (map (\<lambda>y. CHR '','' # y) (map quote_field cells)) @ CHR 0x0A # rest)
       = (case reader_rows parse_reset (readlines rest) of
            (rows, e) \<Rightarrow> ((fs @ c # cells) # rows, e))"
  using assms
proof (induction cells arbitrary: fs c)
  case Nil
  show ?case
    by (simp add: cont_newline ppc_defs del: reader_rows.simps)
next
  case (Cons x cells)
  have x: "length [] + length x \<le> field_limit" using Cons.prems by simp
  have "cont \<lparr>state = QUOTE_IN_QUOTED_FIELD, row_fields = fs, field = c\<rparr>
           (concat (map (\<lambda>y. CHR '','' # y) (map quote_field (x # cells))) @ CHR 0x0A # rest)
      = cont \<lparr>state = IN_QUOTED_FIELD, row_fields = fs @ [c], field = []\<rparr>
           (escape_quotes x @ CHR 0x22 #
              (concat (map (\<lambda>y. CHR '','' # y) (map quote_field cells)) @ CHR 0x0A # rest))"
    by (simp add: quote_field_escape cont_plain ppc_defs)
  also have "\<dots> = cont \<lparr>state = QUOTE_IN_QUOTED_FIELD, row_fields = fs @ [c], field = x\<rparr>
           (concat (map (\<lambda>y. CHR '','' # y) (map quote_field cells)) @ CHR 0x0A # rest)"
    using quoted_content[OF x] by simp
  also have "\<dots> = (case reader_rows parse_reset (readlines rest) of
            (rows, e) \<Rightarrow> (((fs @ [c]) @ x # cells) # rows, e))"
    using Cons.IH[of "fs @ [c]" x] Cons.prems by simp
  finally show ?case by simp
qed

lemma row_parse:
  assumes "cells \<noteq> []" "list_all (\<lambda>x. length x \<le> field_limit) cells"
  shows "reader_rows parse_reset (readlines (row_text cells @ rest))
       = (case reader_rows parse_reset (readlines rest) of (rows, e) \<Rightarrow> (cells # rows, e))"
proof -
  from assms obtain c cs where cells: "cells = c # cs" by (cases cells) auto
  have c: "length [] + length c \<le> field_limit"
    and cs: "list_all (\<lambda>x. length x \<le> field_limit) cs"
    using assms(2) cells by simp_all
  let ?tail = "concat (map (\<lambda>y. CHR '','' # y) (map quote_field cs)) @ CHR 0x0A # rest"
  have t: "row_text cells @ rest = CHR 0x22 # escape_quotes c @ CHR 0x22 # ?tail"
    by (simp add: row_text_def cells join_comma_Cons quote_field_escape)
  have "reader_rows parse_reset (readlines (row_text cells @ rest))
      = cont parse_reset (CHR 0x22 # escape_quotes c @ CHR 0x22 # ?tail)"
    unfolding t by (simp add: cont_def del: reader_rows.simps readlines.simps)
  also have "\<dots> = cont \<lparr>state = IN_QUOTED_FIELD, row_fields = [], field = []\<rparr>
      (escape_quotes c @ CHR 0x22 # ?tail)"
    by (simp add: cont_plain ppc_defs parse_reset_def)
  also have "\<dots> = cont \<lparr>state = QUOTE_IN_QUOTED_FIELD, row_fields = [], field = c\<rparr> ?tail"
    using quoted_content[OF c] by simp
  also have "\<dots> = (case reader_rows parse_reset (readlines rest) of
      (rows, e) \<Rightarrow> (([] @ c # cs) # rows, e))"
    by (rule cells_tail[OF cs])
  finally show ?thesis by (simp add: cells)
qed

lemma rows_parse:
  assumes "list_all (\<lambda>cells. cells \<noteq> [] \<and> list_all (\<lambda>x. length x \<le> field_limit) cells) rows"
  shows "csv_reader (readlines (concat (map row_text rows))) = (rows, None)"
  using assms
proof (induction rows)
  case Nil
  show ?case by (simp add: csv_reader_def parse_reset_def)
next
  case (Cons cells rows)
  then show ?case
    by (simp add: csv_reader_def row_parse del: reader_rows.simps readlines.simps)
qed

section \<open>Writing, then reading\<close>

lemma length_universal_newlines: "length (universal_newlines s) \<le> length s"
  by (induction s rule: universal_newlines.induct) auto

lemma un_rows:
  assumes "list_all (\<lambda>cells. cells \<noteq> []) rows"
  shows "universal_newlines (concat (map writerow rows))
       = concat (map (\<lambda>cells. row_text (map universal_newlines cells)) rows)"
  using assms
proof (induction rows)
  case Nil
  show ?case by simp
next
  case (Cons cells rows)
  then show ?case by (simp add: un_writerow del: universal_newlines.simps)
qed

lemma un_KEYS: "map universal_newlines KEYS = KEYS"
  by (simp add: KEYS_def)

lemma row_dict_KEYS:
  "row_dict KEYS [a, b, c, d, e] =
     [KStr ''filepath'' \<mapsto> Str a, KStr ''event_name'' \<mapsto> Str b, KStr ''title'' \<mapsto> Str c,
      KStr ''speakers'' \<mapsto> Str d, KStr ''segments'' \<mapsto> Str e]"
  by (simp add: row_dict_def KEYS_def)

lemma read_row_KEYS:
  "read_row (row_dict KEYS [a, b, c, d, e]) =
     Inr [KStr ''filepath'' \<mapsto> Str a, KStr ''event_name'' \<mapsto> Str b, KStr ''title'' \<mapsto> Str c,
          KStr ''speakers'' \<mapsto> Lst (split CHR '';'' d),
          KStr ''segments'' \<mapsto> Lst (split CHR '';'' e)]"
  unfolding row_dict_KEYS
  by (simp add: read_row_def getitem_def and_then_def fun_upd_twist)

lemma read_loop_map:
  assumes "\<And>x. x \<in> set xs \<Longrightarrow> read_row (g x) = Inr (h x)"
  shows "read_loop self (map g xs) = Inr (self @ map (\<lambda>x. Some (h x)) xs)"
  using assms
proof (induction xs arbitrary: self)
  case Nil
  show ?case by simp
next
  case (Cons x xs)
  have "read_row (g x) = Inr (h x)" using Cons.prems by simp
  moreover have "read_loop (self @ [Some (h x)]) (map g xs)
      = Inr ((self @ [Some (h x)]) @ map (\<lambda>x. Some (h x)) xs)"
    using Cons.prems by (intro Cons.IH) simp
  ultimately show ?case by (simp add: and_then_def add_item_def Let_def)
qed

lemma records_set: "d \<in> set (records self) \<longleftrightarrow> Some d \<in> set self \<and> d \<noteq> Map.empty"
proof (induction self)
  case Nil
  show ?case by simp
next
  case (Cons item self)
  then show ?case by (cases item) auto
qed

lemma read_row_record:
  "read_row (row_dict KEYS (map universal_newlines (record_row d))) = Inr (reread d)"
  by (simp add: record_row_def read_row_KEYS reread_def del: universal_newlines.simps split.simps)

lemma KEYS_short: "KEYS \<noteq> [] \<and> list_all (\<lambda>x. length x \<le> field_limit) KEYS"
  by (simp add: KEYS_def field_limit_def)

lemma un_short:
  "list_all (\<lambda>x. length x \<le> field_limit) cells \<Longrightarrow>
   list_all (\<lambda>x. length x \<le> field_limit) (map universal_newlines cells)"
  using length_universal_newlines by (induction cells) (auto intro: order_trans)

lemma write_then_read:
  assumes ok: "\<And>d. Some d \<in> set self \<Longrightarrow> d \<noteq> Map.empty \<Longrightarrow>
                 complete_record d \<and> list_all (\<lambda>x. length x \<le> field_limit) (record_row d)"
    and fs: "fs p \<noteq> Unopenable"
  defines "T \<equiv> writeheader KEYS @ concat (map (\<lambda>d. writerow (record_row d)) (records self))"
  shows "write_to_csv self fs p = Done (fs(p := File T))"
    and "read_from_csv self0 (fs(p := File T)) p
           = Inr (self0 @ map (\<lambda>d. Some (reread d)) (records self))"
proof -
  show "write_to_csv self fs p = Done (fs(p := File T))"
    unfolding T_def using ok fs by (intro write_to_csv_complete) auto
  let ?rows = "KEYS # map record_row (records self)"
  let ?got = "map (\<lambda>d. map universal_newlines (record_row d)) (records self)"
  have T: "T = concat (map writerow ?rows)"
    by (simp add: T_def writeheader_def comp_def)
  have ne: "list_all (\<lambda>cells. cells \<noteq> []) ?rows"
    using KEYS_short by (simp add: list_all_iff record_row_def)
  have un: "universal_newlines T = concat (map row_text (KEYS # ?got))"
    unfolding T un_rows[OF ne] by (simp add: un_KEYS comp_def del: universal_newlines.simps)
  have short: "list_all (\<lambda>cells. cells \<noteq> [] \<and> list_all (\<lambda>x. length x \<le> field_limit) cells)
                 (KEYS # ?got)"
  proof -
    have "cells \<noteq> [] \<and> list_all (\<lambda>x. length x \<le> field_limit) cells"
      if "cells \<in> set ?got" for cells
    proof -
      from that obtain d where d: "d \<in> set (records self)"
        and cells: "cells = map universal_newlines (record_row d)" by auto
      from d ok have "list_all (\<lambda>x. length x \<le> field_limit) (record_row d)"
        unfolding records_set by blast
      then have "list_all (\<lambda>x. length x \<le> field_limit) cells"
        unfolding cells by (rule un_short)
      moreover have "cells \<noteq> []" unfolding cells by (simp add: record_row_def)
      ultimately show ?thesis by simp
    qed
    with KEYS_short show ?thesis unfolding list_all_iff by simp
  qed
  have rd: "csv_reader (readlines (universal_newlines T)) = (KEYS # ?got, None)"
    unfolding un by (rule rows_parse[OF short])
  have filt: "filter (\<lambda>row. row \<noteq> []) ?got = ?got"
    by (simp add: filter_id_conv record_row_def)
  have dr: "DictReader (KEYS # ?got)
      = map (\<lambda>d. row_dict KEYS (map universal_newlines (record_row d))) (records self)"
    by (simp add: DictReader_def filt comp_def del: universal_newlines.simps)
  have loop: "read_loop self0 (DictReader (KEYS # ?got))
      = Inr (self0 @ map (\<lambda>d. Some (reread d)) (records self))"
    unfolding dr by (rule read_loop_map) (rule read_row_record)
  show "read_from_csv self0 (fs(p := File T)) p
           = Inr (self0 @ map (\<lambda>d. Some (reread d)) (records self))"
    by (simp add: read_from_csv_def rd loop and_then_def del: universal_newlines.simps)
qed

subsection \<open>C1: the collection after writing and reading\<close>

lemma un_id: "CHR 0x0D \<notin> set s \<Longrightarrow> universal_newlines s = s"
  by (induction s rule: universal_newlines.induct) auto

lemma split_no_sep: "sep \<notin> set x \<Longrightarrow> split sep x = [x]"
  by (induction x) (auto simp: Let_def)

lemma split_append_sep: "sep \<notin> set x \<Longrightarrow> split sep (x @ sep # rest) = x # split sep rest"
  by (induction x) (auto simp: Let_def)

lemma split_join:
  "list_all (\<lambda>x. sep \<notin> set x) xs \<Longrightarrow>
   split sep (join [sep] xs) = (if xs = [] then [[]] else xs)"
proof (induction "[sep]" xs rule: join.induct)
  case 1
  show ?case by simp
next
  case (2 x)
  then show ?case by (simp add: split_no_sep)
next
  case (3 x y ys)
  then show ?case by (simp add: split_append_sep del: split.simps)
qed

lemma reread_plain:
  assumes "plain_record d"
  shows "reread d = read_back d"
proof -
  from assms have c: "complete_record d" and dom: "dom d = KStr ` set KEYS"
    and cells: "list_all (\<lambda>x. length x \<le> field_limit \<and> CHR 0x0D \<notin> set x) (record_row d)"
    and semi: "list_all (\<lambda>x. CHR '';'' \<notin> set x)
                 (list_of (d (KStr ''speakers'')) @ list_of (d (KStr ''segments'')))"
    unfolding plain_record_def by simp_all
  from c obtain fp en ti sp sg where
    d: "d (KStr ''filepath'') = Some (Str fp)" "d (KStr ''event_name'') = Some (Str en)"
       "d (KStr ''title'') = Some (Str ti)" "d (KStr ''speakers'') = Some (Lst sp)"
       "d (KStr ''segments'') = Some (Lst sg)"
    unfolding complete_record_def by (elim conjE is_textE is_listE)
  from cells have cr: "CHR 0x0D \<notin> set fp" "CHR 0x0D \<notin> set en" "CHR 0x0D \<notin> set ti"
    "CHR 0x0D \<notin> set (join '';'' sp)" "CHR 0x0D \<notin> set (join '';'' sg)"
    by (simp_all add: record_row_def d)
  from semi have s: "list_all (\<lambda>x. CHR '';'' \<notin> set x) sp" "list_all (\<lambda>x. CHR '';'' \<notin> set x) sg"
    by (simp_all add: d)
  have sp: "split CHR '';'' (join '';'' sp) = (if sp = [] then [[]] else sp)"
    using split_join[OF s(1)] by simp
  have sg: "split CHR '';'' (join '';'' sg) = (if sg = [] then [[]] else sg)"
    using split_join[OF s(2)] by simp
  show ?thesis
  proof (rule ext)
    fix k
    show "reread d k = read_back d k"
    proof (cases "k \<in> KStr ` set KEYS")
      case True
      then have "k = KStr ''filepath'' \<or> k = KStr ''event_name'' \<or> k = KStr ''title''
          \<or> k = KStr ''speakers'' \<or> k = KStr ''segments''"
        by (auto simp: KEYS_def)
      then show ?thesis
        by (elim disjE)
           (simp_all add: reread_def read_back_def d un_id cr sp sg
              del: universal_newlines.simps split.simps)
    next
      case False
      then have "d k = None" using dom by blast
      moreover from False have "k \<noteq> KStr ''filepath''" "k \<noteq> KStr ''event_name''"
        "k \<noteq> KStr ''title''" "k \<noteq> KStr ''speakers''" "k \<noteq> KStr ''segments''"
        by (auto simp: KEYS_def)
      ultimately show ?thesis by (simp add: reread_def read_back_def)
    qed
  qed
qed

lemma plain_record_short:
  "plain_record d \<Longrightarrow>
   complete_record d \<and> list_all (\<lambda>x. length x \<le> field_limit) (record_row d)"
  unfolding plain_record_def by (simp add: list_all_iff)

lemma complete_record_nonempty: "complete_record d \<Longrightarrow> d \<noteq> Map.empty"
  unfolding complete_record_def by (auto elim!: is_textE)

text \<open>
  C1 (as stated): writing and reading does not reproduce every record up to the empty
  lists. The segment \<^verbatim>\<open>00:10;00:20\<close> is valid (\<^verbatim>\<open>;\<close> is one of the separators of the pattern);
  a record with this one segment is written with the cell \<^verbatim>\<open>"00:10;00:20"\<close>, and reading the
  file splits the cell at the \<^verbatim>\<open>;\<close>: the record comes back with the two segments \<^verbatim>\<open>00:10\<close> and
  \<^verbatim>\<open>00:20\<close>.
\<close>

theorem write_then_read_semicolon_counterexample:
  "is_valid_segment (Str ''00:10;00:20'') = Inr True
   \<and> write_to_csv [Some (example_record(KStr ''segments'' \<mapsto> Lst [''00:10;00:20'']))]
        (\<lambda>p. Absent) ''m.csv''
      = Done ((\<lambda>p. Absent)(''m.csv'' := File (
          ''\"filepath\",\"event_name\",\"title\",\"speakers\",\"segments\"'' @ [CHR 0x0D, CHR 0x0A] @
          ''\"t.mp3\",\"E\",\"T\",\"A;B\",\"00:10;00:20\"'' @ [CHR 0x0D, CHR 0x0A])))
   \<and> read_from_csv []
        ((\<lambda>p. Absent)(''m.csv'' := File (
          ''\"filepath\",\"event_name\",\"title\",\"speakers\",\"segments\"'' @ [CHR 0x0D, CHR 0x0A] @
          ''\"t.mp3\",\"E\",\"T\",\"A;B\",\"00:10;00:20\"'' @ [CHR 0x0D, CHR 0x0A]))) ''m.csv''
      = Inr [Some (example_record(KStr ''segments'' \<mapsto> Lst [''00:10'', ''00:20'']))]
   \<and> example_record(KStr ''segments'' \<mapsto> Lst [''00:10'', ''00:20''])
        \<noteq> example_record(KStr ''segments'' \<mapsto> Lst [''00:10;00:20''])"
proof (intro conjI)
  let ?d = "example_record(KStr ''segments'' \<mapsto> Lst [''00:10;00:20''])"
  let ?fs = "(\<lambda>p. Absent) :: filesystem"
  show "is_valid_segment (Str ''00:10;00:20'') = Inr True" by code_simp
  have c: "complete_record ?d"
    by (simp add: complete_record_def example_record_def)
  have l: "list_all (\<lambda>x. length x \<le> field_limit) (record_row ?d)"
    by (simp add: record_row_def example_record_def field_limit_def)
  have ok: "complete_record d \<and> list_all (\<lambda>x. length x \<le> field_limit) (record_row d)"
    if "Some d \<in> set [Some ?d]" "d \<noteq> Map.empty" for d
    using that c l by simp
  have fs: "?fs ''m.csv'' \<noteq> Unopenable" by simp
  have recs: "records [Some ?d] = [?d]"
    using complete_record_nonempty[OF c] by simp
  have row: "writerow (record_row ?d)
      = ''\"t.mp3\",\"E\",\"T\",\"A;B\",\"00:10;00:20\"'' @ [CHR 0x0D, CHR 0x0A]"
    by (simp add: record_row_def example_record_def writerow_def quote_field_def line_terminator_def)
  have T: "writeheader KEYS @ concat (map (\<lambda>d. writerow (record_row d)) [?d])
      = ''\"filepath\",\"event_name\",\"title\",\"speakers\",\"segments\"'' @ [CHR 0x0D, CHR 0x0A] @
        ''\"t.mp3\",\"E\",\"T\",\"A;B\",\"00:10;00:20\"'' @ [CHR 0x0D, CHR 0x0A]"
    by (simp add: header_row row del: append_Cons)
  have w: "write_to_csv [Some ?d] ?fs ''m.csv''
      = Done (?fs(''m.csv'' := File (writeheader KEYS @
          concat (map (\<lambda>d. writerow (record_row d)) (records [Some ?d])))))"
    apply (rule write_then_read(1))
     apply (erule (1) ok)
    apply (rule fs)
    done
  show "write_to_csv [Some ?d] ?fs ''m.csv''
      = Done (?fs(''m.csv'' := File (
          ''\"filepath\",\"event_name\",\"title\",\"speakers\",\"segments\"'' @ [CHR 0x0D, CHR 0x0A] @
          ''\"t.mp3\",\"E\",\"T\",\"A;B\",\"00:10;00:20\"'' @ [CHR 0x0D, CHR 0x0A])))"
    using w[unfolded recs, unfolded T] .
  have r: "read_from_csv [] (?fs(''m.csv'' := File (writeheader KEYS @
          concat (map (\<lambda>d. writerow (record_row d)) (records [Some ?d]))))) ''m.csv''
      = Inr ([] @ map (\<lambda>d. Some (reread d)) (records [Some ?d]))"
    apply (rule write_then_read(2))
     apply (erule (1) ok)
    apply (rule fs)
    done
  have rr: "reread ?d = example_record(KStr ''segments'' \<mapsto> Lst [''00:10'', ''00:20''])"
    by (rule ext) (simp add: reread_def example_record_def)
  show "read_from_csv []
        (?fs(''m.csv'' := File (
          ''\"filepath\",\"event_name\",\"title\",\"speakers\",\"segments\"'' @ [CHR 0x0D, CHR 0x0A] @
          ''\"t.mp3\",\"E\",\"T\",\"A;B\",\"00:10;00:20\"'' @ [CHR 0x0D, CHR 0x0A]))) ''m.csv''
      = Inr [Some (example_record(KStr ''segments'' \<mapsto> Lst [''00:10'', ''00:20'']))]"
    using r[unfolded recs, unfolded T] by (simp only: rr list.map append_Nil)
  show "example_record(KStr ''segments'' \<mapsto> Lst [''00:10'', ''00:20''])
        \<noteq> example_record(KStr ''segments'' \<mapsto> Lst [''00:10;00:20''])"
  proof
    assume "example_record(KStr ''segments'' \<mapsto> Lst [''00:10'', ''00:20''])
        = example_record(KStr ''segments'' \<mapsto> Lst [''00:10;00:20''])"
    from map_upd_eqD1[OF this] show False by simp
  qed
qed

text \<open>
  C1 (amended): let every true record of the collection hold exactly the five fields,
  three strings and two lists of strings, with no carriage return in a cell, no cell
  longer than the field size limit, and no \<^verbatim>\<open>;\<close> inside a speaker or a segment. Then
  \<^verbatim>\<open>write_to_csv\<close> succeeds, and \<^verbatim>\<open>read_from_csv\<close> on the file it wrote, into an empty
  collection, returns the true records in order, each one unchanged except that an empty
  list of speakers or segments, which was written as an empty cell, comes back as the list
  of one empty string and not as the empty list. \<^verbatim>\<open>None\<close> slots and records without fields
  are not written and do not come back.
\<close>

theorem write_then_read_roundtrip:
  assumes "\<forall>d. Some d \<in> set self \<longrightarrow> d \<noteq> Map.empty \<longrightarrow> plain_record d"
    and "fs p \<noteq> Unopenable"
  shows "(case write_to_csv self fs p of
            Done fs' \<Rightarrow> read_from_csv [] fs' p = Inr (map (\<lambda>d. Some (read_back d)) (records self))
          | _ \<Rightarrow> False)
       \<and> (\<forall>d. list_of (d (KStr ''speakers'')) = [] \<longrightarrow>
              record_row d ! 3 = [] \<and> read_back d (KStr ''speakers'') = Some (Lst [[]]))
       \<and> (\<forall>d. list_of (d (KStr ''segments'')) = [] \<longrightarrow>
              record_row d ! 4 = [] \<and> read_back d (KStr ''segments'') = Some (Lst [[]]))"
proof (intro conjI)
  have ok: "complete_record d \<and> list_all (\<lambda>x. length x \<le> field_limit) (record_row d)"
    if "Some d \<in> set self" "d \<noteq> Map.empty" for d
    using assms(1) that plain_record_short by blast
  have rb: "map (\<lambda>d. Some (reread d)) (records self) = map (\<lambda>d. Some (read_back d)) (records self)"
    using assms(1) by (auto simp: records_set reread_plain)
  define T where "T = writeheader KEYS @ concat (map (\<lambda>d. writerow (record_row d)) (records self))"
  have w: "write_to_csv self fs p = Done (fs(p := File T))"
    unfolding T_def
    apply (rule write_then_read(1))
     apply (erule (1) ok)
    apply (rule assms(2))
    done
  have r: "read_from_csv [] (fs(p := File T)) p = Inr ([] @ map (\<lambda>d. Some (reread d)) (records self))"
    unfolding T_def
    apply (rule write_then_read(2))
     apply (erule (1) ok)
    apply (rule assms(2))
    done
  from w r rb
  show "case write_to_csv self fs p of
            Done fs' \<Rightarrow> read_from_csv [] fs' p = Inr (map (\<lambda>d. Some (read_back d)) (records self))
          | _ \<Rightarrow> False"
    by simp
  show "\<forall>d. list_of (d (KStr ''speakers'')) = [] \<longrightarrow>
              record_row d ! 3 = [] \<and> read_back d (KStr ''speakers'') = Some (Lst [[]])"
    by (simp add: record_row_def read_back_def)
  show "\<forall>d. list_of (d (KStr ''segments'')) = [] \<longrightarrow>
              record_row d ! 4 = [] \<and> read_back d (KStr ''segments'') = Some (Lst [[]])"
    by (simp add: record_row_def read_back_def)
qed

theorem write_then_read_roundtrip_witness:
  "(case write_to_csv [Some (example_record(KStr ''speakers'' \<mapsto> Lst [])), None, Some Map.empty,
                       Some example_record] (\<lambda>p. Absent) ''m.csv'' of
      Done fs' \<Rightarrow>
        read_from_csv [] fs' ''m.csv''
          = Inr [Some (example_record(KStr ''speakers'' \<mapsto> Lst [[]])), Some example_record]
    | _ \<Rightarrow> False)"
proof -
  let ?d = "example_record(KStr ''speakers'' \<mapsto> Lst [])"
  let ?self = "[Some ?d, None, Some Map.empty, Some example_record]"
  let ?fs = "(\<lambda>p. Absent) :: filesystem"
  have dom: "dom example_record = KStr ` set KEYS"
    by (auto simp: example_record_def KEYS_def)
  have p1: "plain_record example_record"
    unfolding plain_record_def
    by (simp add: dom) (simp add: complete_record_def record_row_def example_record_def field_limit_def)
  have dom2: "dom ?d = KStr ` set KEYS"
    using dom by (auto simp: KEYS_def)
  have p2: "plain_record ?d"
    unfolding plain_record_def
    by (simp add: dom2 del: dom_fun_upd)
       (simp add: complete_record_def record_row_def example_record_def field_limit_def)
  have h1: "\<forall>d. Some d \<in> set ?self \<longrightarrow> d \<noteq> Map.empty \<longrightarrow> plain_record d"
    using p1 p2 by simp
  have h2: "?fs ''m.csv'' \<noteq> Unopenable" by simp
  have recs: "records ?self = [?d, example_record]"
    using complete_record_nonempty p1 p2 by (simp add: plain_record_def)
  have b1: "read_back ?d = example_record(KStr ''speakers'' \<mapsto> Lst [[]])"
    by (rule ext) (simp add: read_back_def example_record_def)
  have b2: "read_back example_record = example_record"
    by (rule ext) (simp add: read_back_def example_record_def)
  from write_then_read_roundtrip[of ?self ?fs "''m.csv''", OF h1 h2, unfolded recs]
  show ?thesis
    by (simp only: b1 b2 list.map)
qed

subsection \<open>C4: how \<^verbatim>\<open>read_from_csv\<close> fails\<close>






















end
